theory Spec2Isabelle
  imports Main
begin

section \<open>The change-stream consumer (src/watch.ts) and its backoff (utils/wait.ts)\<close>

text \<open>
  The Watch class reacts to events: the feed reader emits \<open>change\<close> and \<open>error\<close>, and the
  promises the handlers await settle later. JavaScript runs each handler to its next
  \<open>await\<close> without interruption, so the embedding is a reactive state machine: one step
  per event of the outside world, each step appending the calls it makes to its
  collaborators to a trace and leaving the suspended \<open>async\<close> functions in a table
  of pending promises.
\<close>

subsection \<open>Data\<close>

type_synonym error = string
type_synonym pid = nat

text \<open>A change as the feed reader delivers it: \<open>change.id\<close> may be absent.\<close>

record change =
  change_id :: "string option"
  change_seq :: int
  change_revs :: "string list"

text \<open>The object handed to \<open>mainQueueIndex.saveObject\<close> (watch.ts, lines 127-131).\<close>

record queue_object =
  objectID :: "string option"
  retries :: nat
  queued_change :: change

text \<open>\<open>config.retryBackoffPow\<close> and \<open>config.retryBackoffMax\<close>; the config module is a parameter.\<close>

record config =
  retryBackoffPow :: nat
  retryBackoffMax :: nat

datatype indexer_name = OneTime | Periodic | MainWatch

text \<open>
  A background indexer as \<open>stop()\<close> sees it: \<open>stop_impl\<close> is \<open>None\<close> when the optional
  method is missing, and otherwise says what awaiting the call gives: \<open>None\<close> when it
  returns, \<open>Some err\<close> when it throws or rejects.
\<close>

record indexer =
  stop_impl :: "error option option"

text \<open>The calls the module makes to its collaborators, in the order it makes them.\<close>

datatype effect =
    Pause
  | Resume
  | SaveObject queue_object
  | LogErr string error
  | LogRetrying nat nat
  | Wait nat
  | FetchQueueLength
  | Gauge string int
  | LogProgress int int int int
  | StateSave int
  | Report error "error option"
  | LogInfo string
  | ReaderStop
  | IndexerStop indexer_name
  | RemoveAllListeners

text \<open>How an awaited promise settles; only \<open>fetchQueueLength\<close>'s value is read.\<close>

datatype outcome = Fulfilled int | Rejected error

text \<open>
  The suspended \<open>async\<close> functions: \<open>storeChange(retry)\<close> at its \<open>await saveObject\<close>
  (line 127), \<open>storeChange\<close> inside \<open>backoff(newRetry, ...)\<close> at \<open>await wait(bo)\<close>
  (line 136, wait.ts line 19), \<open>logProgress(seq)\<close> at \<open>await fetchQueueLength()\<close> (line 166),
  and the promise of \<open>stateManager.save\<close> with its \<open>catch\<close> handler (line 150).
\<close>

datatype cont =
    StoreChange_save change nat
  | StoreChange_backoff change nat
  | LogProgress_fetch int
  | StateSave_catch

text \<open>
  The Watch object (its fields as in the class; \<open>changesReader\<close> says whether
  \<open>launchChangeReader\<close> has stored the reader), the trace, the pending promises and the
  feed reader's pause flag, which \<open>pause()\<close> sets and \<open>resume()\<close> clears.
\<close>

record watch =
  totalSequence :: int
  changesReader :: bool
  oneTimeIndexer :: "indexer option"
  periodicDataIndexer :: "indexer option"
  mainWatchIndexer :: "indexer option"
  trace :: "effect list"
  pending :: "(pid \<times> cont) list"
  next_pid :: pid
  feed_paused :: bool

text \<open>What the outside world does: the reader's two events, a promise settling, a timer firing.\<close>

datatype input =
    Change change
  | Error error
  | Settle pid outcome
  | TimerFired pid

subsection \<open>utils/wait.ts (src/unnamed/part_000)\<close>

text \<open>
  \<open>const bo = Math.min(Math.pow(retry + 1, pow) * 1000, max)\<close>, on natural numbers
  (milliseconds); JavaScript's doubles are exact on these integers below \<open>2 ^ 53\<close>.
\<close>

definition backoff_bo :: "nat \<Rightarrow> nat \<Rightarrow> nat \<Rightarrow> nat" where
  "backoff_bo retry pow mx = min ((retry + 1) ^ pow * 1000) mx"

definition emit :: "effect \<Rightarrow> watch \<Rightarrow> watch" where
  "emit e w = w\<lparr>trace := trace w @ [e]\<rparr>"

text \<open>Suspend at an \<open>await\<close>: the promise gets the next identifier.\<close>

definition suspend :: "cont \<Rightarrow> watch \<Rightarrow> watch" where
  "suspend k w = w\<lparr>pending := (next_pid w, k) # pending w, next_pid := Suc (next_pid w)\<rparr>"

text \<open>
  \<open>backoff(retry, pow, max)\<close>: log, then \<open>await wait(bo)\<close>; \<open>k\<close> is what the caller
  does when the timer fires.
\<close>

definition backoff :: "nat \<Rightarrow> nat \<Rightarrow> nat \<Rightarrow> cont \<Rightarrow> watch \<Rightarrow> watch" where
  "backoff retry pow mx k w =
     (let bo = backoff_bo retry pow mx
      in suspend k (emit (Wait bo) (emit (LogRetrying retry bo) w)))"

subsection \<open>The change handler (watch.ts, lines 120-153)\<close>

text \<open>JavaScript's \<open>!change.id\<close> is false exactly for a present, non-empty string.\<close>

definition truthy :: "string option \<Rightarrow> bool" where
  "truthy s = (case s of None \<Rightarrow> False | Some x \<Rightarrow> x \<noteq> [])"

text \<open>\<open>storeChange(retry)\<close> up to its \<open>await\<close>: the call of \<open>saveObject\<close>.\<close>

definition storeChange :: "change \<Rightarrow> nat \<Rightarrow> watch \<Rightarrow> watch" where
  "storeChange c retry w =
     suspend (StoreChange_save c retry)
       (emit (SaveObject \<lparr>objectID = change_id c, retries = 0, queued_change = c\<rparr>) w)"

text \<open>The \<open>catch\<close> block of \<open>storeChange\<close> (lines 132-143), up to the \<open>await\<close> inside \<open>backoff\<close>.\<close>

definition storeChange_catch :: "config \<Rightarrow> change \<Rightarrow> nat \<Rightarrow> error \<Rightarrow> watch \<Rightarrow> watch" where
  "storeChange_catch cfg c retry err w =
     (let newRetry = retry + 1
      in backoff newRetry (retryBackoffPow cfg) (retryBackoffMax cfg) (StoreChange_backoff c newRetry)
           (emit (LogErr ''Error adding a change to the queue.'' err) w))"

text \<open>
  \<open>logProgress(seq)\<close> up to its \<open>await\<close>. With \<open>mainWatchIndexer\<close> undefined the call
  throws inside the \<open>async\<close> function, and the handler's \<open>.catch(() => {})\<close> drops it.
\<close>

definition logProgress :: "int \<Rightarrow> watch \<Rightarrow> watch" where
  "logProgress sq w =
     (case mainWatchIndexer w of
        None \<Rightarrow> w
      | Some _ \<Rightarrow> suspend (LogProgress_fetch sq) (emit FetchQueueLength w))"

text \<open>
  The rest of \<open>logProgress\<close>, once the queue length is known. The percentage in the log
  line is a formatted floating-point number and is left out of \<open>LogProgress\<close>.
\<close>

definition logProgress_rest :: "int \<Rightarrow> int \<Rightarrow> watch \<Rightarrow> watch" where
  "logProgress_rest sq queueLength w =
     emit (LogProgress sq (totalSequence w) (totalSequence w - sq) queueLength)
       (emit (Gauge ''sequence.current'' sq)
         (emit (Gauge ''sequence.total'' (totalSequence w)) w))"

definition stateManager_save :: "int \<Rightarrow> watch \<Rightarrow> watch" where
  "stateManager_save sq w = suspend StateSave_catch (emit (StateSave sq) w)"

definition reader_pause :: "watch \<Rightarrow> watch" where
  "reader_pause w = (emit Pause w)\<lparr>feed_paused := True\<rparr>"

definition reader_resume :: "watch \<Rightarrow> watch" where
  "reader_resume w = (emit Resume w)\<lparr>feed_paused := False\<rparr>"

text \<open>
  The \<open>change\<close> listener, run to the end of the synchronous handler: \<open>pause()\<close>,
  then \<open>storeChange()\<close>, \<open>logProgress\<close> and \<open>stateManager.save\<close>, each up to its first
  \<open>await\<close> (the innermost application is the first statement).
\<close>

definition on_change :: "change \<Rightarrow> watch \<Rightarrow> watch" where
  "on_change c w =
     (if \<not> truthy (change_id c) then w
      else stateManager_save (change_seq c)
             (logProgress (change_seq c)
               (storeChange c 0
                 (reader_pause w))))"

text \<open>The \<open>error\<close> listener (line 154).\<close>

definition on_error :: "error \<Rightarrow> watch \<Rightarrow> watch" where
  "on_error err w = emit (Report err None) w"

text \<open>
  What a suspended function does when its promise settles. A fulfilled \<open>saveObject\<close>
  resolves \<open>storeChange\<close> (through every \<open>return storeChange(newRetry)\<close> above it), which
  runs the \<open>then\<close> callback of line 147.
\<close>

definition settle :: "config \<Rightarrow> cont \<Rightarrow> outcome \<Rightarrow> watch \<Rightarrow> watch" where
  "settle cfg k out w =
     (case k of
        StoreChange_save c retry \<Rightarrow>
          (case out of
             Fulfilled _ \<Rightarrow> reader_resume w
           | Rejected err \<Rightarrow> storeChange_catch cfg c retry err w)
      | StoreChange_backoff c newRetry \<Rightarrow> storeChange c newRetry w
      | LogProgress_fetch sq \<Rightarrow>
          (case out of
             Fulfilled queueLength \<Rightarrow> logProgress_rest sq queueLength w
           | Rejected _ \<Rightarrow> w)
      | StateSave_catch \<Rightarrow>
          (case out of
             Fulfilled _ \<Rightarrow> w
           | Rejected err \<Rightarrow> emit (Report ''Error storing watch progress'' (Some err)) w))"

definition is_timer :: "cont \<Rightarrow> bool" where
  "is_timer k = (case k of StoreChange_backoff _ _ \<Rightarrow> True | _ \<Rightarrow> False)"

definition forget :: "pid \<Rightarrow> watch \<Rightarrow> watch" where
  "forget p w = w\<lparr>pending := filter (\<lambda>(q, k). q \<noteq> p) (pending w)\<rparr>"

text \<open>
  One step. A promise settles once and only if it is pending; the promise of \<open>wait\<close>
  is settled by its timer alone and cannot reject.
\<close>

definition react :: "config \<Rightarrow> input \<Rightarrow> watch \<Rightarrow> watch" where
  "react cfg i w =
     (case i of
        Change c \<Rightarrow> on_change c w
      | Error err \<Rightarrow> on_error err w
      | Settle p out \<Rightarrow>
          (case map_of (pending w) p of
             None \<Rightarrow> w
           | Some k \<Rightarrow> if is_timer k then w else settle cfg k out (forget p w))
      | TimerFired p \<Rightarrow>
          (case map_of (pending w) p of
             None \<Rightarrow> w
           | Some k \<Rightarrow> if is_timer k then settle cfg k (Fulfilled 0) (forget p w) else w))"

fun run :: "config \<Rightarrow> input list \<Rightarrow> watch \<Rightarrow> watch" where
  "run cfg [] w = w"
| "run cfg (i # is) w = run cfg is (react cfg i w)"


subsection \<open>Watch.stop (watch.ts, lines 91-106)\<close>

text \<open>
  \<open>await this.oneTimeIndexer?.stop?.()\<close>: nothing is called when the indexer or its
  \<open>stop\<close> is missing; otherwise the call is made and the result says what it threw.
\<close>

definition indexer_stop :: "indexer_name \<Rightarrow> indexer option \<Rightarrow> watch \<Rightarrow> error option \<times> watch" where
  "indexer_stop nm ix w =
     (case ix of
        None \<Rightarrow> (None, w)
      | Some i \<Rightarrow>
          (case stop_impl i of
             None \<Rightarrow> (None, w)
           | Some r \<Rightarrow> (r, emit (IndexerStop nm) w)))"

text \<open>
  The \<open>try\<close> block: four statements in sequence, left at the first that throws.
  \<open>readerStop\<close> is what \<open>npm.db.changesReader.stop()\<close> throws, if anything.
\<close>

definition stop_try :: "error option \<Rightarrow> watch \<Rightarrow> error option \<times> watch" where
  "stop_try readerStop w =
     (let w1 = emit ReaderStop w
      in case readerStop of
           Some err \<Rightarrow> (Some err, w1)
         | None \<Rightarrow>
             (case indexer_stop OneTime (oneTimeIndexer w1) w1 of
                (Some err, w2) \<Rightarrow> (Some err, w2)
              | (None, w2) \<Rightarrow>
                  (case indexer_stop Periodic (periodicDataIndexer w2) w2 of
                     (Some err, w3) \<Rightarrow> (Some err, w3)
                   | (None, w3) \<Rightarrow> indexer_stop MainWatch (mainWatchIndexer w3) w3)))"

text \<open>
  \<open>stop()\<close>, its own statements in sequence (events of other handlers that arrive
  between its \<open>await\<close>s are not interleaved here).
\<close>

definition stop :: "error option \<Rightarrow> watch \<Rightarrow> watch" where
  "stop readerStop w =
     (let w1 = emit (LogInfo ''Stopping Watch...'') w;
          (thrown, w2) = stop_try readerStop w1;
          w3 = (case thrown of Some err \<Rightarrow> emit (Report err None) w2 | None \<Rightarrow> w2);
          w4 = (if changesReader w3 then emit RemoveAllListeners w3 else w3)
      in emit (LogInfo ''Stopped Watch gracefully'') w4)"

subsection \<open>Reading a trace\<close>

definition emitted :: "watch \<Rightarrow> watch \<Rightarrow> effect list" where
  "emitted w w' = drop (length (trace w)) (trace w')"

definition saved :: "effect list \<Rightarrow> queue_object list" where
  "saved tr = concat (map (\<lambda>e. case e of SaveObject ob \<Rightarrow> [ob] | _ \<Rightarrow> []) tr)"

definition waits :: "effect list \<Rightarrow> nat list" where
  "waits tr = concat (map (\<lambda>e. case e of Wait ms \<Rightarrow> [ms] | _ \<Rightarrow> []) tr)"

definition backoff_retries :: "effect list \<Rightarrow> nat list" where
  "backoff_retries tr = concat (map (\<lambda>e. case e of LogRetrying r bo \<Rightarrow> [r] | _ \<Rightarrow> []) tr)"

definition logged_errors :: "effect list \<Rightarrow> error list" where
  "logged_errors tr = concat (map (\<lambda>e. case e of LogErr msg err \<Rightarrow> [err] | _ \<Rightarrow> []) tr)"

definition reports :: "effect list \<Rightarrow> (error \<times> error option) list" where
  "reports tr = concat (map (\<lambda>e. case e of Report err ctx \<Rightarrow> [(err, ctx)] | _ \<Rightarrow> []) tr)"

definition state_saves :: "effect list \<Rightarrow> int list" where
  "state_saves tr = concat (map (\<lambda>e. case e of StateSave sq \<Rightarrow> [sq] | _ \<Rightarrow> []) tr)"

text \<open>The forwards in flight: the pending \<open>storeChange\<close> calls, at either of their \<open>await\<close>s.\<close>

definition is_forward :: "cont \<Rightarrow> bool" where
  "is_forward k =
     (case k of StoreChange_save _ _ \<Rightarrow> True | StoreChange_backoff _ _ \<Rightarrow> True | _ \<Rightarrow> False)"

definition forwarding :: "watch \<Rightarrow> (pid \<times> cont) list" where
  "forwarding w = filter (\<lambda>pk. is_forward (snd pk)) (pending w)"

subsection \<open>The outside world's side of a forward\<close>

text \<open>
  The feed reader's contract: it emits no \<open>change\<close> while it is paused. The inputs
  \<open>is\<close>, arriving in state \<open>w\<close>, keep to it.
\<close>

fun feed_respects_pause :: "config \<Rightarrow> input list \<Rightarrow> watch \<Rightarrow> bool" where
  "feed_respects_pause cfg [] w = True"
| "feed_respects_pause cfg (i # is) w =
     ((case i of Change c \<Rightarrow> \<not> feed_paused w | _ \<Rightarrow> True)
      \<and> feed_respects_pause cfg is (react cfg i w))"

text \<open>
  A queue that rejects the pending \<open>saveObject\<close> (promise \<open>p\<close>) with each of the errors
  \<open>es\<close> in turn, every rejection followed by the backoff timer firing; \<open>n\<close> is the next
  promise identifier, so the timer is \<open>n\<close> and the next \<open>saveObject\<close> is \<open>Suc n\<close>.
\<close>

fun retry_inputs :: "pid \<Rightarrow> pid \<Rightarrow> error list \<Rightarrow> input list" where
  "retry_inputs p n [] = []"
| "retry_inputs p n (e # es) =
     Settle p (Rejected e) # TimerFired n # retry_inputs (Suc n) (Suc (Suc n)) es"

fun last_save_pid :: "pid \<Rightarrow> pid \<Rightarrow> error list \<Rightarrow> pid" where
  "last_save_pid p n [] = p"
| "last_save_pid p n (e # es) = last_save_pid (Suc n) (Suc (Suc n)) es"

text \<open>The change \<open>c\<close> is delivered in state \<open>w\<close> and its write fails with \<open>es\<close>, one after the other.\<close>

definition fails :: "config \<Rightarrow> change \<Rightarrow> error list \<Rightarrow> watch \<Rightarrow> input list" where
  "fails cfg c es w =
     Change c # retry_inputs (next_pid w) (next_pid (react cfg (Change c) w)) es"

definition succeeds :: "config \<Rightarrow> change \<Rightarrow> error list \<Rightarrow> watch \<Rightarrow> input" where
  "succeeds cfg c es w =
     Settle (last_save_pid (next_pid w) (next_pid (react cfg (Change c) w)) es) (Fulfilled 0)"

definition fails_then_succeeds :: "config \<Rightarrow> change \<Rightarrow> error list \<Rightarrow> watch \<Rightarrow> input list" where
  "fails_then_succeeds cfg c es w = fails cfg c es w @ [succeeds cfg c es w]"

text \<open>What the handler calls before it returns, and what each failed attempt adds.\<close>

definition handler_effects :: "change \<Rightarrow> watch \<Rightarrow> effect list" where
  "handler_effects c w =
     [Pause, SaveObject \<lparr>objectID = change_id c, retries = 0, queued_change = c\<rparr>]
     @ (case mainWatchIndexer w of None \<Rightarrow> [] | Some _ \<Rightarrow> [FetchQueueLength])
     @ [StateSave (change_seq c)]"

fun retry_effects :: "config \<Rightarrow> change \<Rightarrow> nat \<Rightarrow> error list \<Rightarrow> effect list" where
  "retry_effects cfg c retry [] = []"
| "retry_effects cfg c retry (e # es) =
     [LogErr ''Error adding a change to the queue.'' e,
      LogRetrying (retry + 1) (backoff_bo (retry + 1) (retryBackoffPow cfg) (retryBackoffMax cfg)),
      Wait (backoff_bo (retry + 1) (retryBackoffPow cfg) (retryBackoffMax cfg)),
      SaveObject \<lparr>objectID = change_id c, retries = 0, queued_change = c\<rparr>]
     @ retry_effects cfg c (retry + 1) es"

text \<open>
  \<open>stop()\<close> as the specification words it: the stop calls that exist, in order, inside
  one guard that reports the first failure and skips the rest.
\<close>

definition stop_call :: "indexer_name \<Rightarrow> indexer option \<Rightarrow> (effect \<times> error option) list" where
  "stop_call nm ix =
     (case ix of
        None \<Rightarrow> []
      | Some i \<Rightarrow> (case stop_impl i of None \<Rightarrow> [] | Some r \<Rightarrow> [(IndexerStop nm, r)]))"

definition stop_calls :: "error option \<Rightarrow> watch \<Rightarrow> (effect \<times> error option) list" where
  "stop_calls readerStop w =
     (ReaderStop, readerStop) # stop_call OneTime (oneTimeIndexer w)
       @ stop_call Periodic (periodicDataIndexer w) @ stop_call MainWatch (mainWatchIndexer w)"

fun single_guard :: "(effect \<times> error option) list \<Rightarrow> effect list" where
  "single_guard [] = []"
| "single_guard ((call, None) # rest) = call # single_guard rest"
| "single_guard ((call, Some err) # rest) = [call, Report err None]"

text \<open>At most one forward is in flight, and the feed is paused while one is.\<close>

definition calm :: "watch \<Rightarrow> bool" where
  "calm w = (length (forwarding w) \<le> 1 \<and> (forwarding w = [] \<or> feed_paused w))"

text \<open>The change a suspended \<open>storeChange\<close> is forwarding.\<close>

definition forwarded_change :: "cont \<Rightarrow> change option" where
  "forwarded_change k =
     (case k of StoreChange_save c _ \<Rightarrow> Some c | StoreChange_backoff c _ \<Rightarrow> Some c | _ \<Rightarrow> None)"

text \<open>Every forward in flight is for a change among the inputs \<open>S\<close>.\<close>

definition known_forwards :: "input set \<Rightarrow> watch \<Rightarrow> bool" where
  "known_forwards S w =
     (\<forall>pk \<in> set (pending w). case forwarded_change (snd pk) of None \<Rightarrow> True | Some c \<Rightarrow> Change c \<in> S)"

text \<open>
  Every object written to the queue in \<open>ev\<close> is \<open>{ objectID: change.id, retries: 0, change }\<close>
  for a change among the inputs \<open>S\<close>.
\<close>

definition queue_writes_ok :: "input set \<Rightarrow> effect list \<Rightarrow> bool" where
  "queue_writes_ok S ev =
     (\<forall>ob \<in> set (saved ev).
        ob = \<lparr>objectID = change_id (queued_change ob), retries = 0, queued_change = queued_change ob\<rparr>
        \<and> Change (queued_change ob) \<in> S)"

subsection \<open>Examples\<close>

definition example_config :: config where
  "example_config = \<lparr>retryBackoffPow = 2, retryBackoffMax = 30000\<rparr>"

definition started_watch :: watch where
  "started_watch =
     \<lparr>totalSequence = 0, changesReader = True,
      oneTimeIndexer = Some \<lparr>stop_impl = Some None\<rparr>,
      periodicDataIndexer = Some \<lparr>stop_impl = Some None\<rparr>,
      mainWatchIndexer = Some \<lparr>stop_impl = Some None\<rparr>,
      trace = [], pending = [], next_pid = 0, feed_paused = False\<rparr>"

definition example_change :: change where
  "example_change = \<lparr>change_id = Some ''left-pad'', change_seq = 101, change_revs = [''1-a'']\<rparr>"

definition nameless_change :: change where
  "nameless_change = \<lparr>change_id = Some [], change_seq = 102, change_revs = []\<rparr>"

section \<open>The last step of formatPkg (src/unnamed/part_001, lines 110-113 and 181-189)\<close>

text \<open>
  \<open>traverse(truncated).forEach(maybeEscape)\<close> walks the document in place and updates
  properties of objects that other properties may hold too (in \<open>rawPkg\<close>, \<open>owner\<close> can
  be the very object of \<open>lastPublisher\<close>), so objects live in a store: an address has its
  keys, in the order of \<open>Object.keys\<close>, and a value under each key. An array is an
  object whose keys are \<open>'0'\<close>, \<open>'1'\<close>, ...
\<close>

type_synonym addr = nat

datatype jsval =
    VUndefined
  | VNull
  | VBool bool
  | VNumber int
  | VString string
  | VRef addr

record heap =
  keys_of :: "addr \<Rightarrow> string list"
  prop_of :: "addr \<Rightarrow> string \<Rightarrow> jsval"

text \<open>
  The \<open>escape-html\<close> package: the five characters \<open>"\<close> (0x22), \<open>&\<close>, \<open>'\<close> (0x27),
  \<open><\<close> and \<open>>\<close> are replaced by their entities, every other character is kept.
\<close>

definition escape_char :: "char \<Rightarrow> string" where
  "escape_char c =
     (if c = CHR 0x22 then ''&quot;''
      else if c = CHR ''&'' then ''&amp;''
      else if c = CHR 0x27 then ''&#39;''
      else if c = CHR ''<'' then ''&lt;''
      else if c = CHR ''>'' then ''&gt;''
      else [c])"

definition escape :: "string \<Rightarrow> string" where
  "escape s = concat (map escape_char s)"

text \<open>\<open>this.isLeaf\<close>: a node that is no object, or an object with no keys.\<close>

definition isLeaf :: "heap \<Rightarrow> jsval \<Rightarrow> bool" where
  "isLeaf h node = (case node of VRef a \<Rightarrow> keys_of h a = [] | _ \<Rightarrow> True)"

text \<open>
  \<open>maybeEscape\<close> (lines 181-189), called with \<open>this.key\<close>, \<open>this.isLeaf\<close> and the node:
  \<open>Some x\<close> when it calls \<open>this.update(x)\<close>, \<open>None\<close> when it does nothing.
\<close>

definition maybeEscape :: "string option \<Rightarrow> bool \<Rightarrow> jsval \<Rightarrow> jsval option" where
  "maybeEscape k leaf node =
     (case node of
        VString s \<Rightarrow>
          if leaf then (if k = Some ''readme'' then Some (VString s) else Some (VString (escape s)))
          else None
      | _ \<Rightarrow> None)"

text \<open>
  \<open>this.update(x)\<close>: unless the node is the root, \<open>parent.node[key] = x\<close>. The node's
  place \<open>pk\<close> is its parent's address and its key, \<open>None\<close> for the root.
\<close>

definition update :: "(addr \<times> string) option \<Rightarrow> jsval \<Rightarrow> heap \<Rightarrow> heap" where
  "update pk x h =
     (case pk of
        None \<Rightarrow> h
      | Some (a, k) \<Rightarrow> h\<lparr>prop_of := (prop_of h)(a := (prop_of h a)(k := x))\<rparr>)"

text \<open>The call of the callback on one node.\<close>

definition visit :: "(addr \<times> string) option \<Rightarrow> jsval \<Rightarrow> heap \<Rightarrow> heap" where
  "visit pk node h =
     (case maybeEscape (map_option snd pk) (isLeaf h node) node of
        Some x \<Rightarrow> update pk x h
      | None \<Rightarrow> h)"

text \<open>
  The walker of \<open>traverse\<close>: the callback runs on the node; then, when the node is an
  object that is not one of its own ancestors (\<open>parents\<close>, the circular check), the
  walker goes through its keys in order and walks the value each key holds at that
  moment. The recursion is as deep as the document; the fuel \<open>n\<close> bounds the depth, and
  \<open>None\<close> is a walk that ran out of it.
\<close>

fun walker :: "nat \<Rightarrow> addr list \<Rightarrow> (addr \<times> string) option \<Rightarrow> jsval \<Rightarrow> heap \<Rightarrow> heap option"
  and walk_keys :: "nat \<Rightarrow> addr list \<Rightarrow> addr \<Rightarrow> string list \<Rightarrow> heap \<Rightarrow> heap option" where
  "walker 0 parents pk node h = None"
| "walker (Suc n) parents pk node h =
     (let h1 = visit pk node h
      in case node of
           VRef a \<Rightarrow>
             if a \<in> set parents then Some h1
             else walk_keys n (a # parents) a (keys_of h1 a) h1
         | _ \<Rightarrow> Some h1)"
| "walk_keys n parents a [] h = Some h"
| "walk_keys n parents a (k # ks) h =
     (case walker n parents (Some (a, k)) (prop_of h a k) h of
        None \<Rightarrow> None
      | Some h' \<Rightarrow> walk_keys n parents a ks h')"

text \<open>
  Line 112, \<open>return traverse(truncated).forEach(maybeEscape)\<close>: the object
  \<open>truncated\<close> that \<open>truncatePackage\<close> returned is walked in place and returned; the
  result is the store after the walk. What builds \<open>truncated\<close> (nice-package,
  hosted-git-info, object-sizeof, ...) is outside the repository, so the document is
  a parameter.
\<close>

definition formatPkg_return :: "nat \<Rightarrow> addr \<Rightarrow> heap \<Rightarrow> heap option" where
  "formatPkg_return fuel truncated h = walker fuel [] None (VRef truncated) h"

subsection \<open>Documents and their leaves\<close>

text \<open>
  The objects of the document at \<open>a\<close>: those a chain of properties leads to. \<open>P\<close> is a
  set of objects the chain must not pass through.
\<close>

inductive reach_avoiding :: "heap \<Rightarrow> addr set \<Rightarrow> addr \<Rightarrow> addr \<Rightarrow> bool"
  for h :: heap and P :: "addr set" where
    here: "a \<notin> P \<Longrightarrow> reach_avoiding h P a a"
  | step: "a \<notin> P \<Longrightarrow> k \<in> set (keys_of h a) \<Longrightarrow> prop_of h a k = VRef c
           \<Longrightarrow> reach_avoiding h P c b \<Longrightarrow> reach_avoiding h P a b"

text \<open>Every reference held by an object below \<open>N\<close> points below \<open>N\<close>: the document is finite.\<close>

definition heap_below :: "nat \<Rightarrow> heap \<Rightarrow> bool" where
  "heap_below N h =
     (\<forall>a \<in> {..<N}. \<forall>k \<in> set (keys_of h a). case prop_of h a k of VRef c \<Rightarrow> c < N | _ \<Rightarrow> True)"

text \<open>
  A string is HTML-escaped when none of \<open>"\<close>, \<open>'\<close>, \<open><\<close>, \<open>>\<close> occurs in it and every
  \<open>&\<close> starts one of the five entities.
\<close>

definition entity_follows :: "string \<Rightarrow> bool" where
  "entity_follows cs =
     (take 5 cs = ''quot;'' \<or> take 4 cs = ''amp;'' \<or> take 4 cs = ''#39;''
      \<or> take 3 cs = ''lt;'' \<or> take 3 cs = ''gt;'')"

fun escaped :: "string \<Rightarrow> bool" where
  "escaped [] = True"
| "escaped (c # cs) =
     ((if c = CHR ''&'' then entity_follows cs
       else c \<noteq> CHR 0x22 \<and> c \<noteq> CHR 0x27 \<and> c \<noteq> CHR ''<'' \<and> c \<noteq> CHR ''>'')
      \<and> escaped cs)"

text \<open>
  How the value \<open>v'\<close> under key \<open>k\<close> may differ from the value \<open>v\<close> that was there: a
  string has been escaped some number of times, none under the key \<open>'readme'\<close>, and
  nothing else has changed.
\<close>

definition evolved :: "string \<Rightarrow> jsval \<Rightarrow> jsval \<Rightarrow> bool" where
  "evolved k v v' =
     (case v of
        VString s \<Rightarrow> (\<exists>n. v' = VString ((escape ^^ n) s) \<and> (k = ''readme'' \<longrightarrow> n = 0))
      | _ \<Rightarrow> v' = v)"

definition evolves :: "heap \<Rightarrow> heap \<Rightarrow> bool" where
  "evolves h h' = (keys_of h' = keys_of h \<and> (\<forall>a k. evolved k (prop_of h a k) (prop_of h' a k)))"

text \<open>
  What a completed walk has done to the value under a key it reached: under the key
  \<open>'readme'\<close> a string is the one that was there; under any other key it is that
  string with \<open>escape\<close> applied \<open>n\<close> times, \<open>n\<close> at least 1 (once for every visit of
  the property); a value that is no string is unchanged.
\<close>

definition escaped_leaf :: "string \<Rightarrow> jsval \<Rightarrow> jsval \<Rightarrow> bool" where
  "escaped_leaf k v v' =
     (case v of
        VString s \<Rightarrow>
          (\<exists>n. v' = VString ((escape ^^ n) s)
             \<and> (if k = ''readme'' then n = 0 else 0 < n \<and> escaped ((escape ^^ n) s)))
      | _ \<Rightarrow> v' = v)"

text \<open>The walk of the document at \<open>c\<close> has dealt with every leaf it can reach outside \<open>P\<close>.\<close>

definition covered :: "heap \<Rightarrow> heap \<Rightarrow> addr set \<Rightarrow> addr \<Rightarrow> bool" where
  "covered h h' P c =
     (\<forall>b. reach_avoiding h P c b
        \<longrightarrow> (\<forall>k \<in> set (keys_of h b). escaped_leaf k (prop_of h b k) (prop_of h' b k)))"

text \<open>A store written down as a list of objects.\<close>

definition heap_of :: "(addr \<times> (string \<times> jsval) list) list \<Rightarrow> heap" where
  "heap_of objs =
     \<lparr>keys_of = (\<lambda>a. case map_of objs a of None \<Rightarrow> [] | Some kvs \<Rightarrow> map fst kvs),
      prop_of = (\<lambda>a k. case map_of objs a of
                         None \<Rightarrow> VUndefined
                       | Some kvs \<Rightarrow> (case map_of kvs k of None \<Rightarrow> VUndefined | Some v \<Rightarrow> v))\<rparr>"

text \<open>
  The document of a package without a repository, published by a user whose e-mail
  address holds an \<open>&\<close>. \<open>getOwner\<close> (lines 245-249) returns \<open>lastPublisher\<close> itself, so
  \<open>rawPkg.owner\<close> and \<open>rawPkg.lastPublisher\<close> (lines 90 and 99) are one object, at
  address 1; \<open>owners\<close> (line 100) is an array, at address 2, of objects that \<open>formatUser\<close>
  built afresh, here one, at address 3.
\<close>

definition shared_owner_doc :: heap where
  "shared_owner_doc =
     heap_of
       [(0, [(''name'', VString ''pkg''),
             (''description'', VString ''fast & small''),
             (''readme'', VString ''<h1>pkg</h1>''),
             (''owner'', VRef 1),
             (''lastPublisher'', VRef 1),
             (''owners'', VRef 2)]),
        (1, [(''name'', VString ''tom''), (''email'', VString ''tom&jerry@example.com'')]),
        (2, [(''0'', VRef 3)]),
        (3, [(''name'', VString ''tom''), (''email'', VString ''tom&jerry@example.com'')])]"

section \<open>Properties\<close>

subsection \<open>The backoff\<close>

lemma backoff_bo_examples:
  "backoff_bo 0 2 30000 = 1000" "backoff_bo (Suc 0) 2 30000 = 4000"
  "backoff_bo (Suc (Suc 0)) 2 30000 = 9000" "backoff_bo (Suc (Suc (Suc 0))) 2 30000 = 16000"
  by (simp_all add: backoff_bo_def power2_eq_square)

text \<open>
  C2. The wait \<open>backoff\<close> computes depends on its three arguments alone, whatever the
  state: it logs and waits for \<open>min((a + 1) ^ p * 1000, c)\<close> milliseconds and touches
  nothing else of the trace. With \<open>p = 2\<close> and \<open>c = 30000\<close>, attempt 0 gives 1000,
  1 gives 4000, 2 gives 9000 and 9 gives 30000 (capped).
\<close>

theorem backoff_wait_formula:
  "backoff_bo a p c = min ((a + 1) ^ p * 1000) c
   \<and> trace (backoff a p c k w)
       = trace w @ [LogRetrying a (min ((a + 1) ^ p * 1000) c), Wait (min ((a + 1) ^ p * 1000) c)]
   \<and> backoff_bo 0 2 30000 = 1000 \<and> backoff_bo 1 2 30000 = 4000
   \<and> backoff_bo 2 2 30000 = 9000 \<and> backoff_bo 9 2 30000 = 30000"
  by (simp add: backoff_bo_def backoff_def suspend_def emit_def Let_def power2_eq_square)

subsection \<open>One forward, step by step\<close>

lemma trace_emit: "trace (emit e w) = trace w @ [e]"
  by (simp add: emit_def)

lemma retry_round:
  fixes cfg :: config and e :: error
  assumes "map_of (pending w) p = Some (StoreChange_save c r)"
  defines "w2 \<equiv> react cfg (TimerFired (next_pid w)) (react cfg (Settle p (Rejected e)) w)"
  shows "trace w2 = trace w @ retry_effects cfg c r [e]"
    and "map_of (pending w2) (Suc (next_pid w)) = Some (StoreChange_save c (Suc r))"
    and "next_pid w2 = Suc (Suc (next_pid w))"
    and "feed_paused w2 = feed_paused w"
  using assms
  by (simp_all add: react_def settle_def is_timer_def forget_def storeChange_catch_def
      backoff_def suspend_def emit_def storeChange_def Let_def)

lemma run_retry_inputs:
  "map_of (pending w) p = Some (StoreChange_save c r) \<Longrightarrow>
   trace (run cfg (retry_inputs p (next_pid w) es) w) = trace w @ retry_effects cfg c r es \<and>
   map_of (pending (run cfg (retry_inputs p (next_pid w) es) w)) (last_save_pid p (next_pid w) es)
     = Some (StoreChange_save c (r + length es)) \<and>
   feed_paused (run cfg (retry_inputs p (next_pid w) es) w) = feed_paused w"
proof (induction es arbitrary: w p r)
  case Nil
  then show ?case by simp
next
  case (Cons e es)
  let ?w2 = "react cfg (TimerFired (next_pid w)) (react cfg (Settle p (Rejected e)) w)"
  note rr = retry_round[OF Cons.prems, of cfg e]
  have ih: "trace (run cfg (retry_inputs (Suc (next_pid w)) (next_pid ?w2) es) ?w2)
              = trace ?w2 @ retry_effects cfg c (Suc r) es \<and>
            map_of (pending (run cfg (retry_inputs (Suc (next_pid w)) (next_pid ?w2) es) ?w2))
              (last_save_pid (Suc (next_pid w)) (next_pid ?w2) es)
              = Some (StoreChange_save c (Suc r + length es)) \<and>
            feed_paused (run cfg (retry_inputs (Suc (next_pid w)) (next_pid ?w2) es) ?w2)
              = feed_paused ?w2"
    by (rule Cons.IH[OF rr(2)])
  show ?case using ih rr by simp
qed

lemma run_append: "run cfg (xs @ ys) w = run cfg ys (run cfg xs w)"
  by (induction xs arbitrary: w) simp_all

lemma on_change_truthy:
  assumes "truthy (change_id c)"
  shows "trace (on_change c w) = trace w @ handler_effects c w"
    and "map_of (pending (on_change c w)) (next_pid w) = Some (StoreChange_save c 0)"
    and "feed_paused (on_change c w)"
  using assms
  by (simp_all add: on_change_def stateManager_save_def logProgress_def storeChange_def
      reader_pause_def suspend_def emit_def handler_effects_def split: option.splits)

lemma run_fails:
  assumes "truthy (change_id c)"
  shows "trace (run cfg (fails cfg c es w) w) = trace w @ handler_effects c w @ retry_effects cfg c 0 es"
    and "map_of (pending (run cfg (fails cfg c es w) w))
           (last_save_pid (next_pid w) (next_pid (react cfg (Change c) w)) es)
         = Some (StoreChange_save c (length es))"
    and "feed_paused (run cfg (fails cfg c es w) w)"
proof -
  let ?w1 = "react cfg (Change c) w"
  have w1: "?w1 = on_change c w" by (simp add: react_def)
  have p: "map_of (pending ?w1) (next_pid w) = Some (StoreChange_save c 0)"
    using on_change_truthy(2)[OF assms] w1 by simp
  note r = run_retry_inputs[OF p, of cfg es]
  show "trace (run cfg (fails cfg c es w) w) = trace w @ handler_effects c w @ retry_effects cfg c 0 es"
    using r on_change_truthy(1)[OF assms, of w] w1 by (simp add: fails_def)
  show "map_of (pending (run cfg (fails cfg c es w) w))
           (last_save_pid (next_pid w) (next_pid (react cfg (Change c) w)) es)
         = Some (StoreChange_save c (length es))"
    using r by (simp add: fails_def)
  show "feed_paused (run cfg (fails cfg c es w) w)"
    using r on_change_truthy(3)[OF assms, of w] w1 by (simp add: fails_def)
qed

lemma settle_fulfilled:
  assumes "map_of (pending w) p = Some (StoreChange_save c r)"
  shows "trace (react cfg (Settle p (Fulfilled v)) w) = trace w @ [Resume]"
    and "map_of (pending (react cfg (Settle p (Fulfilled v)) w)) p = None"
    and "\<not> feed_paused (react cfg (Settle p (Fulfilled v)) w)"
  using assms
  by (simp_all add: react_def settle_def is_timer_def forget_def reader_resume_def emit_def
      map_of_eq_None_iff image_iff split_beta)

lemma run_fails_then_succeeds:
  assumes "truthy (change_id c)"
  shows "trace (run cfg (fails_then_succeeds cfg c es w) w)
           = trace w @ handler_effects c w @ retry_effects cfg c 0 es @ [Resume]"
    and "map_of (pending (run cfg (fails_then_succeeds cfg c es w) w))
           (last_save_pid (next_pid w) (next_pid (react cfg (Change c) w)) es) = None"
  using run_fails[OF assms, where cfg=cfg and es=es and w=w]
    settle_fulfilled[OF run_fails(2)[OF assms, where cfg=cfg and es=es and w=w], where cfg=cfg and v=0]
  by (simp_all add: fails_then_succeeds_def run_append succeeds_def)

lemma emitted_trace: "trace w' = trace w @ ev \<Longrightarrow> emitted w w' = ev"
  by (simp add: emitted_def)

lemma waits_append: "waits (xs @ ys) = waits xs @ waits ys"
  by (simp add: waits_def)

lemma backoff_retries_append: "backoff_retries (xs @ ys) = backoff_retries xs @ backoff_retries ys"
  by (simp add: backoff_retries_def)

lemma saved_append: "saved (xs @ ys) = saved xs @ saved ys"
  by (simp add: saved_def)

lemma logged_errors_append: "logged_errors (xs @ ys) = logged_errors xs @ logged_errors ys"
  by (simp add: logged_errors_def)

lemma reports_append: "reports (xs @ ys) = reports xs @ reports ys"
  by (simp add: reports_def)

lemma read_simps:
  "waits [] = []" "waits (x # tr) = (case x of Wait ms \<Rightarrow> [ms] | _ \<Rightarrow> []) @ waits tr"
  "backoff_retries [] = []"
  "backoff_retries (x # tr) = (case x of LogRetrying r bo \<Rightarrow> [r] | _ \<Rightarrow> []) @ backoff_retries tr"
  "saved [] = []" "saved (x # tr) = (case x of SaveObject ob \<Rightarrow> [ob] | _ \<Rightarrow> []) @ saved tr"
  "logged_errors [] = []"
  "logged_errors (x # tr) = (case x of LogErr msg err \<Rightarrow> [err] | _ \<Rightarrow> []) @ logged_errors tr"
  "reports [] = []"
  "reports (x # tr) = (case x of Report err ctx \<Rightarrow> [(err, ctx)] | _ \<Rightarrow> []) @ reports tr"
  "state_saves [] = []"
  "state_saves (x # tr) = (case x of StateSave sq \<Rightarrow> [sq] | _ \<Rightarrow> []) @ state_saves tr"
  by (simp_all add: waits_def backoff_retries_def saved_def logged_errors_def reports_def
      state_saves_def)

lemma handler_effects_read:
  "waits (handler_effects c w) = []"
  "backoff_retries (handler_effects c w) = []"
  "length (saved (handler_effects c w)) = 1"
  "logged_errors (handler_effects c w) = []"
  "reports (handler_effects c w) = []"
  "state_saves (handler_effects c w) = [change_seq c]"
  "Resume \<notin> set (handler_effects c w)"
  by (simp_all add: handler_effects_def read_simps waits_append backoff_retries_append
      saved_append logged_errors_append reports_append split: option.splits)

lemma saved_handler_effects:
  "saved (handler_effects c w) = [\<lparr>objectID = change_id c, retries = 0, queued_change = c\<rparr>]"
  by (simp add: handler_effects_def read_simps saved_append split: option.splits)

lemma waits_retry_effects:
  "waits (retry_effects cfg c r es)
     = map (\<lambda>a. backoff_bo a (retryBackoffPow cfg) (retryBackoffMax cfg)) [Suc r..<Suc (r + length es)]"
proof (induction es arbitrary: r)
  case Nil
  show ?case by (simp add: waits_def)
next
  case (Cons e es)
  have "waits (retry_effects cfg c r (e # es))
          = backoff_bo (Suc r) (retryBackoffPow cfg) (retryBackoffMax cfg)
              # waits (retry_effects cfg c (Suc r) es)"
    by (simp add: waits_def)
  moreover have "[Suc r..<Suc (r + length (e # es))] = Suc r # [Suc (Suc r)..<Suc (Suc r + length es)]"
    by (simp add: upt_conv_Cons del: upt_Suc)
  ultimately show ?case using Cons.IH[of "Suc r"] by simp
qed

lemma backoff_retries_retry_effects:
  "backoff_retries (retry_effects cfg c r es) = [Suc r..<Suc (r + length es)]"
proof (induction es arbitrary: r)
  case Nil
  show ?case by (simp add: backoff_retries_def)
next
  case (Cons e es)
  have "backoff_retries (retry_effects cfg c r (e # es))
          = Suc r # backoff_retries (retry_effects cfg c (Suc r) es)"
    by (simp add: backoff_retries_def)
  moreover have "[Suc r..<Suc (r + length (e # es))] = Suc r # [Suc (Suc r)..<Suc (Suc r + length es)]"
    by (simp add: upt_conv_Cons del: upt_Suc)
  ultimately show ?case using Cons.IH[of "Suc r"] by simp
qed

lemma saved_retry_effects:
  "saved (retry_effects cfg c r es)
     = replicate (length es) \<lparr>objectID = change_id c, retries = 0, queued_change = c\<rparr>"
  by (induction es arbitrary: r) (simp_all add: saved_def)

lemma logged_errors_retry_effects: "logged_errors (retry_effects cfg c r es) = es"
  by (induction es arbitrary: r) (simp_all add: logged_errors_def)

lemma reports_retry_effects: "reports (retry_effects cfg c r es) = []"
  by (induction es arbitrary: r) (simp_all add: reports_def)

lemma Resume_notin_retry_effects: "Resume \<notin> set (retry_effects cfg c r es)"
  by (induction es arbitrary: r) simp_all

lemma emitted_fails_then_succeeds:
  "truthy (change_id c) \<Longrightarrow>
   emitted w (run cfg (fails_then_succeeds cfg c es w) w)
     = handler_effects c w @ retry_effects cfg c 0 es @ [Resume]"
  by (rule emitted_trace) (simp add: run_fails_then_succeeds(1))

lemma emitted_fails:
  "truthy (change_id c) \<Longrightarrow>
   emitted w (run cfg (fails cfg c es w) w) = handler_effects c w @ retry_effects cfg c 0 es"
  by (rule emitted_trace) (simp add: run_fails(1))

lemma truthy_example: "truthy (change_id example_change)"
  by (simp add: truthy_def example_change_def)

text \<open>
  C1, as stated, fails. The \<open>catch\<close> block computes \<open>newRetry = retry + 1\<close> before it
  calls \<open>backoff(newRetry, ...)\<close>, so after the first failed attempt \<open>backoff\<close> receives 1,
  not 0, and with exponent 2 and cap 30000 the wait is 4000 ms, not \<open>delay(0)\<close> = 1000 ms.
\<close>

theorem storeChange_first_wait_counterexample:
  "waits (emitted started_watch
      (run example_config (fails_then_succeeds example_config example_change [''timeout''] started_watch)
         started_watch)) \<noteq> [backoff_bo 0 2 30000]
   \<and> backoff_retries (emitted started_watch
      (run example_config (fails_then_succeeds example_config example_change [''timeout''] started_watch)
         started_watch)) \<noteq> [0]"
  by (simp add: emitted_fails_then_succeeds[OF truthy_example] waits_append backoff_retries_append
      handler_effects_read read_simps waits_retry_effects backoff_retries_retry_effects
      backoff_bo_examples example_config_def)

text \<open>
  C1, amended. For a change whose write fails with the errors \<open>es\<close> and then succeeds,
  the attempt counter passed to \<open>backoff\<close> is 1 on the first failure and grows by 1 with
  each further failure, and the waits are \<open>delay(1), delay(2), ...\<close>; with exponent 2 and
  cap 30000 ms the wait after the first (and only) failed attempt is 4000 ms.
\<close>

theorem storeChange_backoff_attempts:
  assumes "truthy (change_id c)"
  shows "backoff_retries (emitted w (run cfg (fails_then_succeeds cfg c es w) w)) = [1..<Suc (length es)]
    \<and> waits (emitted w (run cfg (fails_then_succeeds cfg c es w) w))
        = map (\<lambda>a. backoff_bo a (retryBackoffPow cfg) (retryBackoffMax cfg)) [1..<Suc (length es)]
    \<and> waits (emitted w (run example_config (fails_then_succeeds example_config c [e] w) w)) = [4000]"
  by (simp add: emitted_fails_then_succeeds[OF assms] waits_append backoff_retries_append
      handler_effects_read read_simps waits_retry_effects backoff_retries_retry_effects
      backoff_bo_examples example_config_def del: upt_Suc)

theorem storeChange_backoff_attempts_witness:
  "truthy (change_id example_change)
   \<and> backoff_retries (emitted started_watch
        (run example_config
           (fails_then_succeeds example_config example_change [''timeout'', ''timeout'', ''busy''] started_watch)
           started_watch)) = [1, 2, 3]
   \<and> waits (emitted started_watch
        (run example_config
           (fails_then_succeeds example_config example_change [''timeout'', ''timeout'', ''busy''] started_watch)
           started_watch)) = [4000, 9000, 16000]"
  using storeChange_backoff_attempts[OF truthy_example, of started_watch example_config
      "[''timeout'', ''timeout'', ''busy'']"]
  by (simp add: truthy_example backoff_bo_examples example_config_def upt_conv_Cons)

text \<open>
  C6. There is no retry ceiling. Whatever the number of errors \<open>es\<close> the queue answers
  with, \<open>storeChange\<close> is still pending after them, at its next \<open>saveObject\<close>, and has
  not resolved; when that attempt succeeds it has made exactly \<open>length es + 1\<close> calls of
  \<open>saveObject\<close>, it resolves (the \<open>then\<close> callback resumes the feed, last of all) and is
  pending no more.
\<close>

theorem storeChange_no_retry_ceiling:
  assumes "truthy (change_id c)"
  shows "map_of (pending (run cfg (fails cfg c es w) w))
           (last_save_pid (next_pid w) (next_pid (react cfg (Change c) w)) es)
         = Some (StoreChange_save c (length es))
    \<and> Resume \<notin> set (emitted w (run cfg (fails cfg c es w) w))
    \<and> length (saved (emitted w (run cfg (fails_then_succeeds cfg c es w) w))) = length es + 1
    \<and> last (trace (run cfg (fails_then_succeeds cfg c es w) w)) = Resume
    \<and> map_of (pending (run cfg (fails_then_succeeds cfg c es w) w))
           (last_save_pid (next_pid w) (next_pid (react cfg (Change c) w)) es) = None"
  using run_fails(2)[OF assms, where cfg=cfg and es=es and w=w]
    run_fails_then_succeeds[OF assms, where cfg=cfg and es=es and w=w]
  by (simp add: emitted_fails[OF assms] emitted_fails_then_succeeds[OF assms]
      handler_effects_read Resume_notin_retry_effects saved_append saved_retry_effects read_simps)

theorem storeChange_no_retry_ceiling_witness:
  "truthy (change_id example_change)
   \<and> map_of (pending (run example_config
          (fails example_config example_change [''e1'', ''e2''] started_watch) started_watch))
        (last_save_pid (next_pid started_watch)
          (next_pid (react example_config (Change example_change) started_watch)) [''e1'', ''e2''])
       = Some (StoreChange_save example_change 2)
   \<and> length (saved (emitted started_watch (run example_config
          (fails_then_succeeds example_config example_change [''e1'', ''e2''] started_watch)
          started_watch))) = 3
   \<and> last (trace (run example_config
          (fails_then_succeeds example_config example_change [''e1'', ''e2''] started_watch)
          started_watch)) = Resume"
  using storeChange_no_retry_ceiling[OF truthy_example, of example_config "[''e1'', ''e2'']" started_watch]
  by (simp add: truthy_example)

text \<open>The inputs of that example, written out with their promise identifiers.\<close>

lemma fails_then_succeeds_example:
  "fails_then_succeeds example_config example_change [''e1'', ''e2''] started_watch
     = [Change example_change, Settle 0 (Rejected ''e1''), TimerFired 3,
        Settle 4 (Rejected ''e2''), TimerFired 5, Settle 6 (Fulfilled 0)]"
proof -
  have n: "next_pid (react example_config (Change example_change) started_watch) = 3"
    by (simp add: react_def on_change_def truthy_example stateManager_save_def logProgress_def
        storeChange_def reader_pause_def suspend_def emit_def started_watch_def)
  have np: "next_pid started_watch = 0"
    by (simp add: started_watch_def)
  show ?thesis
    by (simp add: fails_then_succeeds_def fails_def succeeds_def n np)
qed

text \<open>
  C7, as stated, fails. The \<open>catch\<close> block of \<open>storeChange\<close> calls \<open>log.err\<close> with the
  message and \<open>{ err }\<close>, and calls no \<open>report\<close>: after a failed attempt the trace holds
  the logged error and no report.
\<close>

theorem storeChange_failure_report_counterexample:
  "reports (trace (run example_config (fails example_config example_change [''timeout''] started_watch)
      started_watch)) = []
   \<and> logged_errors (trace (run example_config
        (fails example_config example_change [''timeout''] started_watch) started_watch)) = [''timeout'']"
  by (simp add: run_fails(1)[OF truthy_example] reports_append logged_errors_append
      handler_effects_read reports_retry_effects logged_errors_retry_effects)
    (simp add: started_watch_def read_simps)

text \<open>
  C7, amended. Every failed \<open>saveObject\<close> call is logged, once, through \<open>log.err\<close>
  with the error it failed with, in the order of the failures; the forward makes no call
  of \<open>report\<close>.
\<close>

theorem storeChange_failures_logged:
  assumes "truthy (change_id c)"
  shows "logged_errors (emitted w (run cfg (fails_then_succeeds cfg c es w) w)) = es
    \<and> reports (emitted w (run cfg (fails_then_succeeds cfg c es w) w)) = []"
  by (simp add: emitted_fails_then_succeeds[OF assms] logged_errors_append reports_append
      handler_effects_read logged_errors_retry_effects reports_retry_effects read_simps)

theorem storeChange_failures_logged_witness:
  "truthy (change_id example_change)
   \<and> logged_errors (emitted started_watch (run example_config
        (fails_then_succeeds example_config example_change [''timeout'', ''busy''] started_watch)
        started_watch)) = [''timeout'', ''busy'']
   \<and> reports (emitted started_watch (run example_config
        (fails_then_succeeds example_config example_change [''timeout'', ''busy''] started_watch)
        started_watch)) = []"
  using storeChange_failures_logged[OF truthy_example, of started_watch example_config
      "[''timeout'', ''busy'']"]
  by (simp add: truthy_example)

subsection \<open>The change handler\<close>

text \<open>
  C9. A change whose \<open>id\<close> is absent or empty is skipped entirely: the handler leaves
  the whole state as it was, so it pauses nothing, forwards nothing, saves no checkpoint
  and reports no progress.
\<close>

theorem change_without_id_skipped:
  "\<not> truthy (change_id c) \<Longrightarrow> react cfg (Change c) w = w"
  by (simp add: react_def on_change_def)

theorem change_without_id_skipped_witness:
  "\<not> truthy (change_id nameless_change)
   \<and> \<not> truthy (change_id (nameless_change\<lparr>change_id := None\<rparr>))
   \<and> react example_config (Change nameless_change) started_watch = started_watch
   \<and> react example_config (Change (nameless_change\<lparr>change_id := None\<rparr>)) started_watch
       = started_watch"
  using change_without_id_skipped[of nameless_change example_config started_watch]
    change_without_id_skipped[of "nameless_change\<lparr>change_id := None\<rparr>" example_config started_watch]
  by (simp add: truthy_def nameless_change_def)

text \<open>
  C5. The checkpoint save is called inside the handler, once, with the change's cursor,
  while the forward's first \<open>saveObject\<close> promise is still pending and before any
  \<open>resume\<close>: it does not wait for the forward, so a write that never settles cannot
  prevent it.
\<close>

theorem checkpoint_save_not_after_forward:
  assumes "truthy (change_id c)"
  shows "state_saves (emitted w (react cfg (Change c) w)) = [change_seq c]
    \<and> map_of (pending (react cfg (Change c) w)) (next_pid w) = Some (StoreChange_save c 0)
    \<and> Resume \<notin> set (emitted w (react cfg (Change c) w))"
proof -
  have r: "react cfg (Change c) w = on_change c w"
    by (simp add: react_def)
  have e: "emitted w (on_change c w) = handler_effects c w"
    by (rule emitted_trace) (simp add: on_change_truthy(1)[OF assms])
  show ?thesis
    unfolding r using on_change_truthy(2)[OF assms, of w]
    by (simp add: e handler_effects_read)
qed

theorem checkpoint_save_not_after_forward_witness:
  "truthy (change_id example_change)
   \<and> state_saves (trace (react example_config (Change example_change) started_watch)) = [101]
   \<and> map_of (pending (react example_config (Change example_change) started_watch)) 0
       = Some (StoreChange_save example_change 0)
   \<and> Resume \<notin> set (trace (react example_config (Change example_change) started_watch))"
proof -
  have "trace started_watch = []" "next_pid started_watch = 0" "change_seq example_change = 101"
    by (simp_all add: started_watch_def example_change_def)
  then show ?thesis
    using checkpoint_save_not_after_forward[OF truthy_example, of started_watch example_config]
    by (simp add: truthy_example emitted_def)
qed

subsection \<open>One forward at a time\<close>

lemma forwarding_emit: "forwarding (emit e w) = forwarding w"
  by (simp add: forwarding_def emit_def)

lemma forwarding_suspend:
  "forwarding (suspend k w) = (if is_forward k then (next_pid w, k) # forwarding w else forwarding w)"
  by (simp add: forwarding_def suspend_def)

lemma forwarding_forget:
  "forwarding (forget p w) = filter (\<lambda>pk. fst pk \<noteq> p) (forwarding w)"
  by (induction "pending w" arbitrary: w)
     (auto simp: forwarding_def forget_def split_beta intro: filter_cong)

lemma forwarding_ops:
  "forwarding (reader_pause w) = forwarding w"
  "forwarding (reader_resume w) = forwarding w"
  "forwarding (storeChange c r w) = (next_pid w, StoreChange_save c r) # forwarding w"
  "forwarding (storeChange_catch cfg c r err w)
     = (next_pid w, StoreChange_backoff c (r + 1)) # forwarding w"
  "forwarding (logProgress sq w) = forwarding w"
  "forwarding (logProgress_rest sq n w) = forwarding w"
  "forwarding (stateManager_save sq w) = forwarding w"
  by (simp_all add: reader_pause_def reader_resume_def storeChange_def storeChange_catch_def
      backoff_def logProgress_def logProgress_rest_def stateManager_save_def Let_def
      forwarding_def emit_def suspend_def is_forward_def split: option.splits)

lemma feed_paused_simps:
  "feed_paused (emit e w) = feed_paused w"
  "feed_paused (suspend k w) = feed_paused w"
  "feed_paused (forget p w) = feed_paused w"
  "feed_paused (reader_pause w)"
  "\<not> feed_paused (reader_resume w)"
  "feed_paused (storeChange c r w) = feed_paused w"
  "feed_paused (storeChange_catch cfg c r err w) = feed_paused w"
  "feed_paused (logProgress sq w) = feed_paused w"
  "feed_paused (logProgress_rest sq n w) = feed_paused w"
  "feed_paused (stateManager_save sq w) = feed_paused w"
  by (simp_all add: reader_pause_def reader_resume_def storeChange_def storeChange_catch_def
      backoff_def logProgress_def logProgress_rest_def stateManager_save_def Let_def
      emit_def suspend_def forget_def split: option.splits)

lemma pending_forward:
  assumes "map_of (pending w) p = Some k" "is_forward k" "length (forwarding w) \<le> 1"
  shows "forwarding w = [(p, k)]"
proof -
  have "(p, k) \<in> set (pending w)" using assms(1) by (rule map_of_SomeD)
  then have "(p, k) \<in> set (forwarding w)" using assms(2) by (simp add: forwarding_def)
  then show ?thesis using assms(3) by (cases "forwarding w") auto
qed

lemma calm_forget_forward:
  assumes "map_of (pending w) p = Some k" "is_forward k" "calm w"
  shows "forwarding (forget p w) = []" "feed_paused w"
  using pending_forward[OF assms(1,2)] assms(3)
  by (auto simp: calm_def forwarding_forget)

lemma calm_forget_other:
  assumes "calm w"
  shows "calm (forget p w)"
proof -
  have "length (forwarding (forget p w)) \<le> length (forwarding w)"
    by (simp add: forwarding_forget)
  then have "length (forwarding (forget p w)) \<le> 1"
    using assms unfolding calm_def by linarith
  moreover have "forwarding (forget p w) = [] \<or> feed_paused (forget p w)"
    using assms by (auto simp: calm_def forwarding_forget feed_paused_simps)
  ultimately show ?thesis by (simp add: calm_def)
qed

lemma calm_react:
  assumes "calm w" and "case i of Change c \<Rightarrow> \<not> feed_paused w | _ \<Rightarrow> True"
  shows "calm (react cfg i w)"
proof (cases i)
  case (Change c)
  then have "forwarding w = []" using assms by (simp add: calm_def)
  then show ?thesis using Change
    by (simp add: react_def on_change_def calm_def forwarding_ops feed_paused_simps)
next
  case (Error err)
  then show ?thesis using assms(1)
    by (simp add: react_def on_error_def calm_def forwarding_emit feed_paused_simps)
next
  case (Settle p out)
  show ?thesis
  proof (cases "map_of (pending w) p")
    case None
    then show ?thesis using Settle assms(1) by (simp add: react_def)
  next
    case (Some k)
    show ?thesis
    proof (cases k)
      case (StoreChange_save c r)
      then have f: "is_forward k" by (simp add: is_forward_def)
      note cf = calm_forget_forward[OF Some f assms(1)]
      show ?thesis using Settle Some StoreChange_save cf
        by (simp add: react_def is_timer_def settle_def calm_def forwarding_ops feed_paused_simps
            split: outcome.splits)
    next
      case (StoreChange_backoff c r)
      then show ?thesis using Settle Some assms(1) by (simp add: react_def is_timer_def)
    next
      case (LogProgress_fetch sq)
      then show ?thesis using Settle Some calm_forget_other[OF assms(1), of p]
        by (simp add: react_def is_timer_def settle_def calm_def forwarding_ops
            feed_paused_simps split: outcome.splits)
    next
      case StateSave_catch
      then show ?thesis using Settle Some calm_forget_other[OF assms(1), of p]
        by (simp add: react_def is_timer_def settle_def calm_def
            forwarding_emit feed_paused_simps split: outcome.splits)
    qed
  qed
next
  case (TimerFired p)
  show ?thesis
  proof (cases "map_of (pending w) p")
    case None
    then show ?thesis using TimerFired assms(1) by (simp add: react_def)
  next
    case (Some k)
    show ?thesis
    proof (cases "is_timer k")
      case False
      then show ?thesis using TimerFired Some assms(1) by (simp add: react_def)
    next
      case True
      then obtain c r where k: "k = StoreChange_backoff c r"
        by (cases k) (simp_all add: is_timer_def)
      then have f: "is_forward k" by (simp add: is_forward_def)
      note cf = calm_forget_forward[OF Some f assms(1)]
      show ?thesis using TimerFired Some k cf
        by (simp add: react_def is_timer_def settle_def calm_def forwarding_ops feed_paused_simps)
    qed
  qed
qed

lemma calm_run:
  "calm w \<Longrightarrow> feed_respects_pause cfg ins w \<Longrightarrow> calm (run cfg ins w)"
proof (induction ins arbitrary: w)
  case Nil
  then show ?case by simp
next
  case (Cons i ins)
  then show ?case using calm_react[of w i cfg] by simp
qed

lemma trace_ops:
  "trace (forget p w) = trace w"
  "trace (suspend k w) = trace w"
  "trace (reader_pause w) = trace w @ [Pause]"
  "trace (reader_resume w) = trace w @ [Resume]"
  "trace (storeChange c r w)
     = trace w @ [SaveObject \<lparr>objectID = change_id c, retries = 0, queued_change = c\<rparr>]"
  "trace (storeChange_catch cfg c r err w)
     = trace w @ [LogErr ''Error adding a change to the queue.'' err,
         LogRetrying (r + 1) (backoff_bo (r + 1) (retryBackoffPow cfg) (retryBackoffMax cfg)),
         Wait (backoff_bo (r + 1) (retryBackoffPow cfg) (retryBackoffMax cfg))]"
  "trace (logProgress_rest sq n w)
     = trace w @ [Gauge ''sequence.total'' (totalSequence w), Gauge ''sequence.current'' sq,
         LogProgress sq (totalSequence w) (totalSequence w - sq) n]"
  "trace (stateManager_save sq w) = trace w @ [StateSave sq]"
  by (simp_all add: reader_pause_def reader_resume_def storeChange_def storeChange_catch_def
      backoff_def logProgress_rest_def stateManager_save_def Let_def
      emit_def suspend_def forget_def)

lemma forwarding_started_watch: "forwarding started_watch = []"
  by (simp add: forwarding_def started_watch_def)

lemma emitted_react_Change:
  "truthy (change_id c) \<Longrightarrow> emitted w (react cfg (Change c) w) = handler_effects c w"
  by (rule emitted_trace) (simp add: react_def on_change_truthy(1))

lemma resume_only_on_fulfilled_save:
  assumes "Resume \<in> set (emitted w (react cfg i w))"
  shows "\<exists>p v c r. i = Settle p (Fulfilled v) \<and> map_of (pending w) p = Some (StoreChange_save c r)"
proof (cases i)
  case (Change c)
  then show ?thesis using assms
    by (cases "truthy (change_id c)")
       (simp_all add: emitted_react_Change handler_effects_read,
        simp add: react_def on_change_def emitted_def)
next
  case (Error err)
  then show ?thesis using assms by (simp add: react_def on_error_def emitted_def trace_emit)
next
  case (Settle p out)
  show ?thesis
  proof (cases "map_of (pending w) p")
    case None
    then show ?thesis using Settle assms by (simp add: react_def emitted_def)
  next
    case (Some k)
    then show ?thesis using Settle assms
      by (cases k; cases out)
         (simp_all add: react_def is_timer_def settle_def emitted_def trace_ops trace_emit)
  qed
next
  case (TimerFired p)
  then show ?thesis using assms
    by (cases "map_of (pending w) p")
       (auto simp: react_def is_timer_def settle_def emitted_def trace_ops split: cont.splits)
qed

text \<open>
  C4. For a change with a non-empty id the handler calls \<open>pause()\<close> first and
  \<open>saveObject\<close> next; the only step that calls \<open>resume()\<close> is the fulfilment of a
  forward's pending \<open>saveObject\<close>, which settles that forward. So, with a feed that
  delivers no change while paused, at every moment at most one forward is in flight, and
  the feed is paused for as long as one is.
\<close>

theorem one_forward_at_a_time:
  assumes "forwarding w = []" and "feed_respects_pause cfg ins w"
  shows "length (forwarding (run cfg ins w)) \<le> 1
    \<and> (forwarding (run cfg ins w) = [] \<or> feed_paused (run cfg ins w))
    \<and> (truthy (change_id c) \<longrightarrow>
         take 2 (emitted w' (react cfg (Change c) w'))
           = [Pause, SaveObject \<lparr>objectID = change_id c, retries = 0, queued_change = c\<rparr>])
    \<and> (Resume \<in> set (emitted w' (react cfg i w')) \<longrightarrow>
         (\<exists>p v c' r. i = Settle p (Fulfilled v)
            \<and> map_of (pending w') p = Some (StoreChange_save c' r)))"
proof -
  have "calm w" using assms(1) by (simp add: calm_def)
  then have "calm (run cfg ins w)" using assms(2) by (rule calm_run)
  moreover have "truthy (change_id c) \<longrightarrow>
         take 2 (emitted w' (react cfg (Change c) w'))
           = [Pause, SaveObject \<lparr>objectID = change_id c, retries = 0, queued_change = c\<rparr>]"
    by (simp add: emitted_react_Change handler_effects_def)
  ultimately show ?thesis using resume_only_on_fulfilled_save[of w' cfg i]
    by (simp add: calm_def)
qed

theorem one_forward_at_a_time_witness:
  "forwarding started_watch = []
   \<and> feed_respects_pause example_config
        [Change example_change, Settle 0 (Rejected ''e1''), TimerFired 3,
         Settle 4 (Fulfilled 0), Change example_change] started_watch
   \<and> length (forwarding (run example_config
        [Change example_change, Settle 0 (Rejected ''e1''), TimerFired 3,
         Settle 4 (Fulfilled 0), Change example_change] started_watch)) \<le> 1
   \<and> feed_paused (run example_config
        [Change example_change, Settle 0 (Rejected ''e1''), TimerFired 3,
         Settle 4 (Fulfilled 0), Change example_change] started_watch)
   \<and> \<not> feed_respects_pause example_config
        [Change example_change, Change example_change] started_watch"
proof -
  have r: "feed_respects_pause example_config
        [Change example_change, Settle 0 (Rejected ''e1''), TimerFired 3,
         Settle 4 (Fulfilled 0), Change example_change] started_watch"
    by (simp add: react_def on_change_def truthy_example stateManager_save_def logProgress_def
        storeChange_def reader_pause_def reader_resume_def suspend_def emit_def started_watch_def
        settle_def is_timer_def forget_def storeChange_catch_def backoff_def Let_def)
  have p: "feed_paused (run example_config
        [Change example_change, Settle 0 (Rejected ''e1''), TimerFired 3,
         Settle 4 (Fulfilled 0), Change example_change] started_watch)"
    by (simp add: react_def on_change_def truthy_example stateManager_save_def logProgress_def
        storeChange_def reader_pause_def reader_resume_def suspend_def emit_def started_watch_def
        settle_def is_timer_def forget_def storeChange_catch_def backoff_def Let_def)
  have n: "\<not> feed_respects_pause example_config
        [Change example_change, Change example_change] started_watch"
    by (simp add: react_def on_change_def truthy_example feed_paused_simps)
  from one_forward_at_a_time[OF forwarding_started_watch r]
  show ?thesis using forwarding_started_watch r p n by simp
qed

subsection \<open>What is written to the queue\<close>

lemma known_forwards_ops:
  "known_forwards S (emit e w) = known_forwards S w"
  "known_forwards S (reader_pause w) = known_forwards S w"
  "known_forwards S (reader_resume w) = known_forwards S w"
  "known_forwards S (storeChange c r w) = (Change c \<in> S \<and> known_forwards S w)"
  "known_forwards S (storeChange_catch cfg c r err w) = (Change c \<in> S \<and> known_forwards S w)"
  "known_forwards S (logProgress sq w) = known_forwards S w"
  "known_forwards S (logProgress_rest sq n w) = known_forwards S w"
  "known_forwards S (stateManager_save sq w) = known_forwards S w"
  by (simp_all add: reader_pause_def reader_resume_def storeChange_def storeChange_catch_def
      backoff_def logProgress_def logProgress_rest_def stateManager_save_def Let_def
      emit_def suspend_def known_forwards_def forwarded_change_def split: option.splits)

lemma known_forwards_forget: "known_forwards S w \<Longrightarrow> known_forwards S (forget p w)"
  by (simp add: known_forwards_def forget_def)

lemma known_forwards_pending:
  "known_forwards S w \<Longrightarrow> map_of (pending w) p = Some k \<Longrightarrow> forwarded_change k = Some c
   \<Longrightarrow> Change c \<in> S"
  by (auto simp: known_forwards_def dest!: map_of_SomeD split: option.splits)

lemma queue_writes_ok_simps:
  "queue_writes_ok S []"
  "queue_writes_ok S (x # ev) =
     ((case x of
         SaveObject ob \<Rightarrow>
           ob = \<lparr>objectID = change_id (queued_change ob), retries = 0, queued_change = queued_change ob\<rparr>
           \<and> Change (queued_change ob) \<in> S
       | _ \<Rightarrow> True) \<and> queue_writes_ok S ev)"
  "queue_writes_ok S (ev @ ev') = (queue_writes_ok S ev \<and> queue_writes_ok S ev')"
  by (auto simp: queue_writes_ok_def read_simps saved_append split: effect.splits)

lemma react_queue_writes:
  assumes "known_forwards S w" and "i \<in> S"
  shows "known_forwards S (react cfg i w)
    \<and> (\<exists>ev. trace (react cfg i w) = trace w @ ev \<and> queue_writes_ok S ev)"
proof (cases i)
  case (Change c)
  show ?thesis
  proof (cases "truthy (change_id c)")
    case True
    have "queue_writes_ok S (handler_effects c w)"
      using assms(2) Change
      by (simp add: handler_effects_def queue_writes_ok_simps split: option.splits)
    moreover have "trace (react cfg i w) = trace w @ handler_effects c w"
      using Change on_change_truthy(1)[OF True] by (simp add: react_def)
    moreover have "known_forwards S (react cfg i w)"
      using Change True assms by (simp add: react_def on_change_def known_forwards_ops)
    ultimately show ?thesis by blast
  next
    case False
    then have "react cfg i w = w" using Change by (simp add: react_def on_change_def)
    then show ?thesis using assms(1) by (simp add: queue_writes_ok_simps)
  qed
next
  case (Error err)
  then show ?thesis using assms(1)
    by (simp add: react_def on_error_def known_forwards_ops trace_emit queue_writes_ok_simps)
next
  case (Settle p out)
  show ?thesis
  proof (cases "map_of (pending w) p")
    case None
    then show ?thesis using Settle assms(1) by (simp add: react_def queue_writes_ok_simps)
  next
    case (Some k)
    note kf = known_forwards_forget[OF assms(1), of p]
    show ?thesis
    proof (cases k)
      case (StoreChange_save c r)
      then have "Change c \<in> S"
        using known_forwards_pending[OF assms(1) Some, of c] by (simp add: forwarded_change_def)
      then show ?thesis using Settle Some StoreChange_save kf
        by (cases out)
           (simp_all add: react_def is_timer_def settle_def known_forwards_ops trace_ops
              queue_writes_ok_simps)
    next
      case (StoreChange_backoff c r)
      then show ?thesis using Settle Some assms(1)
        by (simp add: react_def is_timer_def queue_writes_ok_simps)
    next
      case (LogProgress_fetch sq)
      then show ?thesis using Settle Some kf
        by (cases out)
           (simp_all add: react_def is_timer_def settle_def known_forwards_ops trace_ops
              queue_writes_ok_simps)
    next
      case StateSave_catch
      then show ?thesis using Settle Some kf
        by (cases out)
           (simp_all add: react_def is_timer_def settle_def known_forwards_ops trace_ops trace_emit
              queue_writes_ok_simps)
    qed
  qed
next
  case (TimerFired p)
  show ?thesis
  proof (cases "map_of (pending w) p")
    case None
    then show ?thesis using TimerFired assms(1) by (simp add: react_def queue_writes_ok_simps)
  next
    case (Some k)
    note kf = known_forwards_forget[OF assms(1), of p]
    show ?thesis
    proof (cases "is_timer k")
      case False
      then show ?thesis using TimerFired Some assms(1)
        by (simp add: react_def queue_writes_ok_simps)
    next
      case True
      then obtain c r where k: "k = StoreChange_backoff c r"
        by (cases k) (simp_all add: is_timer_def)
      then have "Change c \<in> S"
        using known_forwards_pending[OF assms(1) Some, of c] by (simp add: forwarded_change_def)
      then show ?thesis using TimerFired Some k kf
        by (simp add: react_def is_timer_def settle_def known_forwards_ops trace_ops
            queue_writes_ok_simps)
    qed
  qed
qed

lemma run_queue_writes:
  "known_forwards S w \<Longrightarrow> set ins \<subseteq> S
   \<Longrightarrow> \<exists>ev. trace (run cfg ins w) = trace w @ ev \<and> queue_writes_ok S ev"
proof (induction ins arbitrary: w)
  case Nil
  then show ?case by (simp add: queue_writes_ok_simps)
next
  case (Cons i ins)
  have i: "i \<in> S" and ins: "set ins \<subseteq> S" using Cons.prems(2) by simp_all
  from react_queue_writes[OF Cons.prems(1) i, of cfg]
  obtain ev where k: "known_forwards S (react cfg i w)"
    and t: "trace (react cfg i w) = trace w @ ev" and q: "queue_writes_ok S ev"
    by blast
  from Cons.IH[OF k ins]
  obtain ev' where t': "trace (run cfg ins (react cfg i w)) = trace (react cfg i w) @ ev'"
    and q': "queue_writes_ok S ev'"
    by blast
  have "trace (run cfg (i # ins) w) = trace w @ (ev @ ev')" using t t' by simp
  moreover have "queue_writes_ok S (ev @ ev')" using q q' by (simp add: queue_writes_ok_simps)
  ultimately show ?case by blast
qed

lemma known_forwards_calm_start: "forwarding w = [] \<Longrightarrow> known_forwards S w"
  by (auto simp: known_forwards_def forwarding_def filter_empty_conv is_forward_def
      forwarded_change_def split: cont.splits)

text \<open>
  C3. Every object the forwarder hands to \<open>saveObject\<close>, on a first attempt or after
  any number of failed ones, is \<open>{ objectID: change.id, retries: 0, change }\<close> for a
  change the feed delivered: its retry counter is 0 unconditionally.
\<close>

theorem saveObject_retries_zero:
  assumes "forwarding w = []" and "ob \<in> set (saved (emitted w (run cfg ins w)))"
  shows "ob = \<lparr>objectID = change_id (queued_change ob), retries = 0, queued_change = queued_change ob\<rparr>
    \<and> retries ob = 0 \<and> Change (queued_change ob) \<in> set ins"
proof -
  from run_queue_writes[OF known_forwards_calm_start[OF assms(1)] subset_refl, where cfg=cfg]
  obtain ev where t: "trace (run cfg ins w) = trace w @ ev" and q: "queue_writes_ok (set ins) ev"
    by blast
  have "emitted w (run cfg ins w) = ev" using t by (rule emitted_trace)
  then have o: "ob = \<lparr>objectID = change_id (queued_change ob), retries = 0, queued_change = queued_change ob\<rparr>"
    and c: "Change (queued_change ob) \<in> set ins"
    using q assms(2) by (simp_all add: queue_writes_ok_def)
  have "retries ob = 0" by (subst o) simp
  then show ?thesis using o c by blast
qed

theorem saveObject_retries_zero_witness:
  "forwarding started_watch = []
   \<and> \<lparr>objectID = change_id example_change, retries = 0, queued_change = example_change\<rparr>
       \<in> set (saved (emitted started_watch (run example_config
            (fails_then_succeeds example_config example_change [''e1'', ''e2''] started_watch)
            started_watch)))
   \<and> Change example_change
       \<in> set (fails_then_succeeds example_config example_change [''e1'', ''e2''] started_watch)"
proof -
  have m: "\<lparr>objectID = change_id example_change, retries = 0, queued_change = example_change\<rparr>
       \<in> set (saved (emitted started_watch (run example_config
            (fails_then_succeeds example_config example_change [''e1'', ''e2''] started_watch)
            started_watch)))"
    by (simp add: emitted_fails_then_succeeds[OF truthy_example] saved_append saved_handler_effects)
  from saveObject_retries_zero[OF forwarding_started_watch m]
  show ?thesis using forwarding_started_watch m by simp
qed

subsection \<open>Stopping\<close>

text \<open>
  C8. \<open>stop()\<close> stops the feed transport first and then the three indexers, in order,
  inside one guard: the calls run up to the first that throws, that failure is reported
  and the later stop calls are skipped. Removing the reader's listeners stands after the
  guard and runs whatever happened inside it (on the reader that \<open>launchChangeReader\<close>
  stored).
\<close>

theorem stop_single_guard:
  "trace (stop readerStop w)
     = trace w @ [LogInfo ''Stopping Watch...''] @ single_guard (stop_calls readerStop w)
       @ (if changesReader w then [RemoveAllListeners] else [])
       @ [LogInfo ''Stopped Watch gracefully'']"
  by (simp add: stop_def stop_try_def indexer_stop_def stop_calls_def stop_call_def emit_def
      Let_def split: option.splits prod.splits)

theorem stop_single_guard_witness:
  "trace (stop None (started_watch\<lparr>oneTimeIndexer := Some \<lparr>stop_impl = Some (Some ''boom'')\<rparr>\<rparr>))
     = [LogInfo ''Stopping Watch...'', ReaderStop, IndexerStop OneTime, Report ''boom'' None,
        RemoveAllListeners, LogInfo ''Stopped Watch gracefully'']
   \<and> trace (stop None started_watch)
     = [LogInfo ''Stopping Watch...'', ReaderStop, IndexerStop OneTime, IndexerStop Periodic,
        IndexerStop MainWatch, RemoveAllListeners, LogInfo ''Stopped Watch gracefully'']
   \<and> trace (stop (Some ''closed'') started_watch)
     = [LogInfo ''Stopping Watch...'', ReaderStop, Report ''closed'' None,
        RemoveAllListeners, LogInfo ''Stopped Watch gracefully'']"
  using stop_single_guard[of None "started_watch\<lparr>oneTimeIndexer := Some \<lparr>stop_impl = Some (Some ''boom'')\<rparr>\<rparr>"]
    stop_single_guard[of None started_watch] stop_single_guard[of "Some ''closed''" started_watch]
  by (simp add: stop_calls_def stop_call_def started_watch_def)

subsection \<open>The escaping traversal of formatPkg\<close>

lemma escaped_append_plain: "escaped (escape_char c @ cs) = escaped cs"
  by (simp add: escape_char_def entity_follows_def)

lemma escaped_escape: "escaped (escape s)"
  by (induction s) (simp_all add: escape_def escaped_append_plain)

lemma evolved_refl: "evolved k v v"
proof (cases v)
  case (VString s)
  have "VString s = VString ((escape ^^ 0) s)" by simp
  then show ?thesis unfolding evolved_def VString by (auto intro: exI[of _ 0])
qed (simp_all add: evolved_def)

lemma evolved_trans:
  assumes "evolved k v v'" and "evolved k v' v''"
  shows "evolved k v v''"
proof (cases v)
  case (VString s)
  from assms(1) VString obtain n where n: "v' = VString ((escape ^^ n) s)" "k = ''readme'' \<longrightarrow> n = 0"
    by (auto simp: evolved_def)
  from assms(2) n(1) obtain m where m: "v'' = VString ((escape ^^ m) ((escape ^^ n) s))"
    "k = ''readme'' \<longrightarrow> m = 0"
    by (auto simp: evolved_def)
  have "v'' = VString ((escape ^^ (m + n)) s)" using m(1) by (simp add: funpow_add)
  moreover have "k = ''readme'' \<longrightarrow> m + n = 0" using n(2) m(2) by simp
  ultimately show ?thesis unfolding evolved_def VString by auto
qed (use assms in \<open>simp_all add: evolved_def\<close>)

lemma escaped_leaf_evolved: "escaped_leaf k v v' \<Longrightarrow> evolved k v v'"
  by (cases v) (auto simp: escaped_leaf_def evolved_def split: if_splits)

lemma escaped_funpow: "0 < n \<Longrightarrow> escaped ((escape ^^ n) s)"
  by (cases n) (simp_all add: escaped_escape)

lemma escaped_leafI:
  assumes "v' = VString ((escape ^^ n) s)" and "if k = ''readme'' then n = 0 else 0 < n"
  shows "escaped_leaf k (VString s) v'"
proof -
  have "v' = VString ((escape ^^ n) s)
      \<and> (if k = ''readme'' then n = 0 else 0 < n \<and> escaped ((escape ^^ n) s))"
    using assms by (auto simp: escaped_funpow split: if_splits)
  then have "\<exists>n. v' = VString ((escape ^^ n) s)
      \<and> (if k = ''readme'' then n = 0 else 0 < n \<and> escaped ((escape ^^ n) s))"
    by (rule exI)
  then show ?thesis unfolding escaped_leaf_def by (simp only: jsval.case)
qed

lemma escaped_leaf_then_evolved:
  assumes "escaped_leaf k v v'" and "evolved k v' v''"
  shows "escaped_leaf k v v''"
proof (cases v)
  case (VString s)
  from assms(1) VString obtain n where n: "v' = VString ((escape ^^ n) s)"
    "if k = ''readme'' then n = 0 else 0 < n"
    by (auto simp: escaped_leaf_def split: if_splits)
  from assms(2) n(1) obtain m where m: "v'' = VString ((escape ^^ m) ((escape ^^ n) s))"
    "k = ''readme'' \<longrightarrow> m = 0"
    by (auto simp: evolved_def)
  have v: "v'' = VString ((escape ^^ (m + n)) s)" using m(1) by (simp add: funpow_add)
  have "if k = ''readme'' then m + n = 0 else 0 < m + n"
    using n(2) m(2) by (auto split: if_splits)
  then show ?thesis unfolding VString using v by (intro escaped_leafI)
qed (use assms in \<open>simp_all add: escaped_leaf_def evolved_def\<close>)

lemma evolved_then_escaped_leaf:
  assumes "evolved k v v'" and "escaped_leaf k v' v''"
  shows "escaped_leaf k v v''"
proof (cases v)
  case (VString s)
  from assms(1) VString obtain n where n: "v' = VString ((escape ^^ n) s)" "k = ''readme'' \<longrightarrow> n = 0"
    by (auto simp: evolved_def)
  from assms(2) n(1) obtain m where m: "v'' = VString ((escape ^^ m) ((escape ^^ n) s))"
    "if k = ''readme'' then m = 0 else 0 < m"
    by (auto simp: escaped_leaf_def split: if_splits)
  have v: "v'' = VString ((escape ^^ (m + n)) s)" using m(1) by (simp add: funpow_add)
  have "if k = ''readme'' then m + n = 0 else 0 < m + n"
    using n(2) m(2) by (auto split: if_splits)
  then show ?thesis unfolding VString using v by (intro escaped_leafI)
qed (use assms in \<open>simp_all add: escaped_leaf_def evolved_def\<close>)

lemma evolves_refl: "evolves h h"
  by (simp add: evolves_def evolved_refl)

lemma evolves_trans:
  assumes "evolves h h'" and "evolves h' h''"
  shows "evolves h h''"
proof -
  have "keys_of h'' = keys_of h" using assms by (simp add: evolves_def)
  moreover have "evolved k (prop_of h a k) (prop_of h'' a k)" for a k
    using assms evolved_trans[of k "prop_of h a k" "prop_of h' a k" "prop_of h'' a k"]
    by (simp add: evolves_def)
  ultimately show ?thesis by (simp add: evolves_def)
qed

lemma evolves_keys: "evolves h h' \<Longrightarrow> keys_of h' = keys_of h"
  by (simp add: evolves_def)

lemma evolves_ref: "evolves h h' \<Longrightarrow> (prop_of h' a k = VRef c) = (prop_of h a k = VRef c)"
proof -
  assume "evolves h h'"
  then have "evolved k (prop_of h a k) (prop_of h' a k)" by (simp add: evolves_def)
  then show ?thesis by (auto simp: evolved_def split: jsval.splits)
qed

lemma visit_ref: "visit pk (VRef c) h = h"
  by (simp add: visit_def maybeEscape_def)

lemma escaped_leaf_visit:
  assumes "prop_of h a k = node"
  shows "escaped_leaf k node (prop_of (visit (Some (a, k)) node h) a k)"
proof (cases node)
  case (VString s)
  show ?thesis
  proof (cases "k = ''readme''")
    case True
    have "VString s = VString ((escape ^^ 0) s)" by simp
    then show ?thesis using True VString
      by (auto simp: visit_def update_def maybeEscape_def isLeaf_def escaped_leaf_def
          intro: exI[of _ 0])
  next
    case False
    have "VString (escape s) = VString ((escape ^^ 1) s)" by simp
    then show ?thesis using False VString
      by (auto simp: visit_def update_def maybeEscape_def isLeaf_def escaped_leaf_def
          escaped_escape intro!: exI[of _ 1])
  qed
qed (use assms in \<open>simp_all add: visit_def update_def maybeEscape_def escaped_leaf_def\<close>)

lemma evolves_visit:
  assumes "\<And>a k. pk = Some (a, k) \<Longrightarrow> prop_of h a k = node"
  shows "evolves h (visit pk node h)"
proof (cases pk)
  case None
  then show ?thesis
    by (simp add: visit_def update_def evolves_refl split: option.splits)
next
  case (Some ak)
  obtain a k where ak: "ak = (a, k)" by (cases ak)
  have n: "prop_of h a k = node" using assms Some ak by simp
  have here: "evolved k (prop_of h a k) (prop_of (visit pk node h) a k)"
    using escaped_leaf_visit[OF n] Some ak n by (simp add: escaped_leaf_evolved)
  have other: "prop_of (visit pk node h) b j = prop_of h b j" if "(b, j) \<noteq> (a, k)" for b j
    using that Some ak by (auto simp: visit_def update_def split: option.splits)
  have "evolved j (prop_of h b j) (prop_of (visit pk node h) b j)" for b j
    using here other[of b j] by (cases "(b, j) = (a, k)") (auto simp: evolved_refl)
  moreover have "keys_of (visit pk node h) = keys_of h"
    using Some ak by (simp add: visit_def update_def split: option.splits)
  ultimately show ?thesis by (simp add: evolves_def)
qed


lemma walker_evolves:
  "walker n ps pk node h = Some h' \<Longrightarrow> (\<And>a k. pk = Some (a, k) \<Longrightarrow> prop_of h a k = node)
     \<Longrightarrow> evolves h h'"
  "walk_keys n ps a ks h = Some h' \<Longrightarrow> evolves h h'"
proof (induction n ps pk node h and n ps a ks h arbitrary: h' and h'
    rule: walker_walk_keys.induct)
  case (1 parents pk node h)
  then show ?case by simp
next
  case (2 n parents pk node h)
  have v: "evolves h (visit pk node h)" using "2.prems"(2) by (rule evolves_visit)
  show ?case
  proof (cases node)
    case (VRef a)
    show ?thesis
    proof (cases "a \<in> set parents")
      case True
      then show ?thesis using "2.prems"(1) VRef v by (simp add: Let_def)
    next
      case False
      then have "walk_keys n (a # parents) a (keys_of (visit pk node h) a) (visit pk node h) = Some h'"
        using "2.prems"(1) VRef by (simp add: Let_def)
      then have "evolves (visit pk node h) h'"
        using "2.IH"[OF refl VRef False] by simp
      then show ?thesis using v evolves_trans by blast
    qed
  qed (use "2.prems"(1) v in \<open>simp_all add: Let_def\<close>)
next
  case (3 n parents a h)
  then show ?case by (simp add: evolves_refl)
next
  case (4 n parents a k ks h)
  from "4.prems" obtain h1 where
    w: "walker n parents (Some (a, k)) (prop_of h a k) h = Some h1"
    and r: "walk_keys n parents a ks h1 = Some h'"
    by (auto split: option.splits)
  have "evolves h h1" using "4.IH"(1)[OF w] by simp
  moreover have "evolves h1 h'" using "4.IH"(2)[OF w r] .
  ultimately show ?case by (rule evolves_trans)
qed

lemma reach_avoiding_evolves_1:
  "reach_avoiding h P a b \<Longrightarrow> evolves h h' \<Longrightarrow> reach_avoiding h' P a b"
proof (induction rule: reach_avoiding.induct)
  case (here a)
  then show ?case by (simp add: reach_avoiding.here)
next
  case (step a k c b)
  have k: "k \<in> set (keys_of h' a)" using step.hyps(2) step.prems by (simp add: evolves_keys)
  have p: "prop_of h' a k = VRef c" using step.hyps(3) step.prems by (simp add: evolves_ref)
  show ?case by (rule reach_avoiding.step[OF step.hyps(1) k p step.IH[OF step.prems]])
qed

lemma reach_avoiding_evolves_2:
  "reach_avoiding h' P a b \<Longrightarrow> evolves h h' \<Longrightarrow> reach_avoiding h P a b"
proof (induction rule: reach_avoiding.induct)
  case (here a)
  then show ?case by (simp add: reach_avoiding.here)
next
  case (step a k c b)
  have k: "k \<in> set (keys_of h a)" using step.hyps(2) step.prems by (simp add: evolves_keys)
  have p: "prop_of h a k = VRef c" using step.hyps(3) step.prems by (simp add: evolves_ref)
  show ?case by (rule reach_avoiding.step[OF step.hyps(1) k p step.IH[OF step.prems]])
qed

lemma covered_start:
  assumes "evolves h h1" and "covered h1 h' P c"
  shows "covered h h' P c"
  unfolding covered_def
proof (intro allI impI ballI)
  fix b k
  assume r: "reach_avoiding h P c b" and k: "k \<in> set (keys_of h b)"
  have "reach_avoiding h1 P c b" using r assms(1) by (rule reach_avoiding_evolves_1)
  moreover have "k \<in> set (keys_of h1 b)" using k assms(1) by (simp add: evolves_keys)
  ultimately have "escaped_leaf k (prop_of h1 b k) (prop_of h' b k)"
    using assms(2) by (simp add: covered_def)
  moreover have "evolved k (prop_of h b k) (prop_of h1 b k)" using assms(1) by (simp add: evolves_def)
  ultimately show "escaped_leaf k (prop_of h b k) (prop_of h' b k)"
    by (rule evolved_then_escaped_leaf[rotated])
qed

lemma covered_finish:
  assumes "evolves h1 h'" and "covered h h1 P c"
  shows "covered h h' P c"
  unfolding covered_def
proof (intro allI impI ballI)
  fix b k
  assume r: "reach_avoiding h P c b" and k: "k \<in> set (keys_of h b)"
  then have "escaped_leaf k (prop_of h b k) (prop_of h1 b k)"
    using assms(2) by (simp add: covered_def)
  moreover have "evolved k (prop_of h1 b k) (prop_of h' b k)" using assms(1) by (simp add: evolves_def)
  ultimately show "escaped_leaf k (prop_of h b k) (prop_of h' b k)"
    by (rule escaped_leaf_then_evolved)
qed

lemma reach_avoiding_start: "reach_avoiding h P c b \<Longrightarrow> c \<notin> P"
  by (induction rule: reach_avoiding.induct) simp_all

text \<open>
  A chain from \<open>c\<close> either never passes through \<open>a\<close>, or ends in \<open>a\<close>, or goes on from a
  property of \<open>a\<close> without passing through \<open>a\<close> again.
\<close>

lemma reach_avoiding_split:
  "reach_avoiding h P c b \<Longrightarrow>
     reach_avoiding h (insert a P) c b \<or> b = a
     \<or> (\<exists>k d. k \<in> set (keys_of h a) \<and> prop_of h a k = VRef d \<and> reach_avoiding h (insert a P) d b)"
proof (induction rule: reach_avoiding.induct)
  case (here c)
  then show ?case by (cases "c = a") (auto intro: reach_avoiding.here)
next
  case (step c k d b)
  from step.IH show ?case
  proof (elim disjE)
    assume r: "reach_avoiding h (insert a P) d b"
    show ?thesis
    proof (cases "c = a")
      case True
      then show ?thesis using step.hyps(2,3) r by blast
    next
      case False
      then have "c \<notin> insert a P" using step.hyps(1) by simp
      then have "reach_avoiding h (insert a P) c b"
        by (rule reach_avoiding.step[OF _ step.hyps(2,3) r])
      then show ?thesis by simp
    qed
  qed auto
qed

lemma reach_avoiding_children:
  assumes "reach_avoiding h P a b"
  shows "b = a
     \<or> (\<exists>k d. k \<in> set (keys_of h a) \<and> prop_of h a k = VRef d \<and> reach_avoiding h (insert a P) d b)"
  using assms
proof (cases rule: reach_avoiding.cases)
  case here
  then show ?thesis by simp
next
  case (step k c)
  from reach_avoiding_split[OF step(4), of a] show ?thesis
    using step(2,3) by blast
qed

lemma walker_covers:
  "walker n ps pk node h = Some h' \<Longrightarrow> (\<And>a k. pk = Some (a, k) \<Longrightarrow> prop_of h a k = node)
     \<Longrightarrow> (\<forall>a k. pk = Some (a, k) \<longrightarrow> escaped_leaf k (prop_of h a k) (prop_of h' a k))
         \<and> (\<forall>c. node = VRef c \<longrightarrow> covered h h' (set ps) c)"
  "walk_keys n ps a ks h = Some h'
     \<Longrightarrow> (\<forall>k \<in> set ks. escaped_leaf k (prop_of h a k) (prop_of h' a k)
            \<and> (\<forall>c. prop_of h a k = VRef c \<longrightarrow> covered h h' (set ps) c))"
proof (induction n ps pk node h and n ps a ks h arbitrary: h' and h'
    rule: walker_walk_keys.induct)
  case (1 parents pk node h)
  then show ?case by simp
next
  case (2 n parents pk node h)
  have own: "escaped_leaf k (prop_of h a k) (prop_of h' a k)" if "pk = Some (a, k)" for a k
  proof -
    have p: "prop_of h a k = node" using that "2.prems"(2) by simp
    then have "escaped_leaf k node (prop_of (visit (Some (a, k)) node h) a k)"
      by (rule escaped_leaf_visit)
    then have "escaped_leaf k (prop_of h a k) (prop_of (visit pk node h) a k)"
      using that p by simp
    moreover have "evolves (visit pk node h) h'"
    proof (cases node)
      case (VRef c)
      show ?thesis
      proof (cases "c \<in> set parents")
        case True
        then show ?thesis using "2.prems"(1) VRef by (simp add: Let_def evolves_refl)
      next
        case False
        then have "walk_keys n (c # parents) c (keys_of (visit pk node h) c) (visit pk node h) = Some h'"
          using "2.prems"(1) VRef by (simp add: Let_def)
        then show ?thesis by (rule walker_evolves(2))
      qed
    qed (use "2.prems"(1) in \<open>simp_all add: Let_def evolves_refl\<close>)
    then have "evolved k (prop_of (visit pk node h) a k) (prop_of h' a k)"
      by (simp add: evolves_def)
    ultimately show ?thesis by (rule escaped_leaf_then_evolved)
  qed
  have sub: "covered h h' (set parents) c" if n: "node = VRef c" for c
  proof (cases "c \<in> set parents")
    case True
    then show ?thesis by (auto simp: covered_def dest: reach_avoiding_start)
  next
    case False
    have v: "visit pk node h = h" using n by (simp add: visit_ref)
    have w: "walk_keys n (c # parents) c (keys_of h c) h = Some h'"
      using "2.prems"(1) n False by (simp add: Let_def visit_ref)
    have ih: "\<forall>k \<in> set (keys_of h c). escaped_leaf k (prop_of h c k) (prop_of h' c k)
        \<and> (\<forall>d. prop_of h c k = VRef d \<longrightarrow> covered h h' (set (c # parents)) d)"
      using "2.IH"[OF refl n False, of h'] w v by simp
    show ?thesis
      unfolding covered_def
    proof (intro allI impI ballI)
      fix b k
      assume r: "reach_avoiding h (set parents) c b" and k: "k \<in> set (keys_of h b)"
      from reach_avoiding_children[OF r]
      show "escaped_leaf k (prop_of h b k) (prop_of h' b k)"
      proof
        assume "b = c"
        then show ?thesis using ih k by simp
      next
        assume "\<exists>k d. k \<in> set (keys_of h c) \<and> prop_of h c k = VRef d
            \<and> reach_avoiding h (insert c (set parents)) d b"
        then obtain k' d where k': "k' \<in> set (keys_of h c)" and d: "prop_of h c k' = VRef d"
          and rd: "reach_avoiding h (insert c (set parents)) d b"
          by blast
        have "covered h h' (set (c # parents)) d" using ih k' d by blast
        then show ?thesis using rd k by (simp add: covered_def)
      qed
    qed
  qed
  show ?case using own sub by blast
next
  case (3 n parents a h)
  then show ?case by simp
next
  case (4 n parents a k ks h)
  from "4.prems" obtain h1 where
    w: "walker n parents (Some (a, k)) (prop_of h a k) h = Some h1"
    and r: "walk_keys n parents a ks h1 = Some h'"
    by (auto split: option.splits)
  have e1: "evolves h h1" using walker_evolves(1)[OF w] by simp
  have e2: "evolves h1 h'" using r by (rule walker_evolves(2))
  have first: "escaped_leaf k (prop_of h a k) (prop_of h1 a k)
      \<and> (\<forall>c. prop_of h a k = VRef c \<longrightarrow> covered h h1 (set parents) c)"
    using "4.IH"(1)[OF w] by simp
  have rest: "\<forall>k' \<in> set ks. escaped_leaf k' (prop_of h1 a k') (prop_of h' a k')
      \<and> (\<forall>c. prop_of h1 a k' = VRef c \<longrightarrow> covered h1 h' (set parents) c)"
    using "4.IH"(2)[OF w r] .
  show ?case
  proof
    fix k'
    assume "k' \<in> set (k # ks)"
    then consider "k' = k" | "k' \<in> set ks" by auto
    then show "escaped_leaf k' (prop_of h a k') (prop_of h' a k')
        \<and> (\<forall>c. prop_of h a k' = VRef c \<longrightarrow> covered h h' (set parents) c)"
    proof cases
      case 1
      have "evolved k (prop_of h1 a k) (prop_of h' a k)" using e2 by (simp add: evolves_def)
      then have "escaped_leaf k (prop_of h a k) (prop_of h' a k)"
        using first escaped_leaf_then_evolved by blast
      moreover have "covered h h' (set parents) c" if "prop_of h a k = VRef c" for c
        using first that covered_finish[OF e2] by blast
      ultimately show ?thesis using 1 by simp
    next
      case 2
      then have l: "escaped_leaf k' (prop_of h1 a k') (prop_of h' a k')"
        and c: "\<forall>c. prop_of h1 a k' = VRef c \<longrightarrow> covered h1 h' (set parents) c"
        using rest by simp_all
      have "evolved k' (prop_of h a k') (prop_of h1 a k')" using e1 by (simp add: evolves_def)
      then have "escaped_leaf k' (prop_of h a k') (prop_of h' a k')"
        using l by (rule evolved_then_escaped_leaf)
      moreover have "covered h h' (set parents) c" if "prop_of h a k' = VRef c" for c
      proof -
        have "prop_of h1 a k' = VRef c" using that e1 by (simp add: evolves_ref)
        then have "covered h1 h' (set parents) c" using c by simp
        then show ?thesis using e1 by (rule covered_start[rotated])
      qed
      ultimately show ?thesis by simp
    qed
  qed
qed

lemma heap_belowD:
  assumes "heap_below N h" and "a < N" and "k \<in> set (keys_of h a)" and "prop_of h a k = VRef c"
  shows "c < N"
proof -
  have "a \<in> {..<N}" using assms(2) by simp
  then have "case prop_of h a k of VRef c \<Rightarrow> c < N | _ \<Rightarrow> True"
    using assms(1,3) unfolding heap_below_def by blast
  then show ?thesis using assms(4) by simp
qed

lemma evolves_heap_below:
  assumes "evolves h h'" and "heap_below N h"
  shows "heap_below N h'"
  unfolding heap_below_def
proof (intro ballI)
  fix a k
  assume a: "a \<in> {..<N}" and k: "k \<in> set (keys_of h' a)"
  then have k': "k \<in> set (keys_of h a)" using assms(1) by (simp add: evolves_keys)
  show "case prop_of h' a k of VRef c \<Rightarrow> c < N | _ \<Rightarrow> True"
  proof (cases "prop_of h' a k")
    case (VRef c)
    then have "prop_of h a k = VRef c" using assms(1) by (simp add: evolves_ref)
    then have "c < N" using heap_belowD[OF assms(2) _ k'] a by simp
    then show ?thesis using VRef by simp
  qed simp_all
qed

lemma parents_bounded:
  assumes "distinct ps" and "set ps \<subseteq> {..<N}"
  shows "length ps \<le> N"
proof -
  have "card (set ps) \<le> card {..<N}" using assms(2) by (intro card_mono) simp_all
  then show ?thesis using assms(1) by (simp add: distinct_card)
qed

text \<open>
  The walk returns: its ancestors are distinct objects of a finite document, so fuel
  beyond the number of objects is never used up.
\<close>

lemma walker_returns:
  "heap_below N h \<Longrightarrow> distinct ps \<Longrightarrow> set ps \<subseteq> {..<N} \<Longrightarrow> (\<forall>c. node = VRef c \<longrightarrow> c < N)
     \<Longrightarrow> N < n + length ps \<Longrightarrow> \<exists>h'. walker n ps pk node h = Some h'"
  "heap_below N h \<Longrightarrow> distinct ps \<Longrightarrow> set ps \<subseteq> {..<N} \<Longrightarrow> N < n + length ps
     \<Longrightarrow> a < N \<Longrightarrow> set ks \<subseteq> set (keys_of h a)
     \<Longrightarrow> \<exists>h'. walk_keys n ps a ks h = Some h'"
proof (induction n ps pk node h and n ps a ks h rule: walker_walk_keys.induct)
  case (1 parents pk node h)
  have "length parents \<le> N" using "1.prems"(2,3) by (rule parents_bounded)
  then show ?case using "1.prems"(5) by simp
next
  case (2 n parents pk node h)
  show ?case
  proof (cases node)
    case (VRef c)
    show ?thesis
    proof (cases "c \<in> set parents")
      case True
      then show ?thesis using VRef by (simp add: Let_def)
    next
      case False
      have c: "c < N" using "2.prems"(4) VRef by simp
      have hb: "heap_below N (visit pk node h)" using VRef "2.prems"(1) by (simp add: visit_ref)
      have d: "distinct (c # parents)" using False "2.prems"(2) by simp
      have sb: "set (c # parents) \<subseteq> {..<N}" using c "2.prems"(3) by simp
      have f: "N < n + length (c # parents)" using "2.prems"(5) by simp
      from "2.IH"[OF refl VRef False hb d sb f c subset_refl]
      obtain h' where
        "walk_keys n (c # parents) c (keys_of (visit pk node h) c) (visit pk node h) = Some h'"
        by blast
      then show ?thesis using VRef False by (simp add: Let_def)
    qed
  qed (simp_all add: Let_def)
next
  case (3 n parents a h)
  show ?case by simp
next
  case (4 n parents a k ks h)
  have k: "k \<in> set (keys_of h a)" and ks: "set ks \<subseteq> set (keys_of h a)"
    using "4.prems"(6) by simp_all
  have r: "\<forall>c. prop_of h a k = VRef c \<longrightarrow> c < N"
    using heap_belowD[OF "4.prems"(1,5) k] by blast
  from "4.IH"(1)[OF "4.prems"(1,2,3) r "4.prems"(4)]
  obtain h1 where w: "walker n parents (Some (a, k)) (prop_of h a k) h = Some h1"
    by blast
  have e: "evolves h h1" using walker_evolves(1)[OF w] by simp
  then have hb: "heap_below N h1" using "4.prems"(1) by (rule evolves_heap_below)
  have ks1: "set ks \<subseteq> set (keys_of h1 a)" using ks e by (simp add: evolves_keys)
  from "4.IH"(2)[OF w hb "4.prems"(2,3,4,5) ks1]
  obtain h' where "walk_keys n parents a ks h1 = Some h'"
    by blast
  then show ?case using w by simp
qed

text \<open>
  What the traversal does on every finite document: it returns, every object has the
  keys it had, and each value under a key of an object of the returned document is the
  one that entered the traversal unless that was a string: a string under the key
  \<open>'readme'\<close> is left as it was, and a string under any other key has had \<open>escape\<close>
  applied to it once for every visit of its property, at least once.
\<close>

lemma walk_escapes_reached_strings:
  assumes "heap_below N h" and "truncated < N" and "N < fuel"
  shows "\<exists>h'. formatPkg_return fuel truncated h = Some h'
           \<and> keys_of h' = keys_of h
           \<and> (\<forall>b k. reach_avoiding h' {} truncated b \<longrightarrow> k \<in> set (keys_of h' b)
                  \<longrightarrow> escaped_leaf k (prop_of h b k) (prop_of h' b k))"
proof -
  have "\<exists>h'. walker fuel [] None (VRef truncated) h = Some h'"
    using assms by (intro walker_returns(1)[of N]) simp_all
  then obtain h' where w: "walker fuel [] None (VRef truncated) h = Some h'"
    by blast
  have e: "evolves h h'" using walker_evolves(1)[OF w] by simp
  have c: "covered h h' {} truncated" using walker_covers(1)[OF w] by simp
  have "escaped_leaf k (prop_of h b k) (prop_of h' b k)"
    if r: "reach_avoiding h' {} truncated b" and k: "k \<in> set (keys_of h' b)" for b k
  proof -
    have "reach_avoiding h {} truncated b" using r e by (rule reach_avoiding_evolves_2)
    moreover have "k \<in> set (keys_of h b)" using k e by (simp add: evolves_keys)
    ultimately show ?thesis using c by (simp add: covered_def)
  qed
  then show ?thesis using w e by (simp add: formatPkg_return_def evolves_keys)
qed

lemma escape_examples:
  "escape ''tom&jerry@example.com'' = ''tom&amp;jerry@example.com''"
  "escape ''tom&amp;jerry@example.com'' = ''tom&amp;amp;jerry@example.com''"
  "escape ''fast & small'' = ''fast &amp; small''"
  "escape ''tom'' = ''tom''"
  by (simp_all add: escape_def escape_char_def)

text \<open>
  C10. The claim is right and the code misses it on a shared object. In the document
  of a package whose \<open>owner\<close> is its \<open>lastPublisher\<close>, the walk visits that object once
  through each of the two properties and updates it in place both times: the e-mail
  address it returns there is the original escaped twice, which is not the HTML-escaped
  original. The same address in \<open>owners[0]\<close>, an object of its own, is escaped once, as
  is the description; the readme is left as it was.
\<close>

theorem formatPkg_shared_owner_escaped_twice:
  "map_option
     (\<lambda>h. [prop_of h 1 ''email'', prop_of h 3 ''email'', prop_of h 0 ''description'',
           prop_of h 0 ''readme''])
     (formatPkg_return 5 0 shared_owner_doc)
   = Some [VString (escape (escape ''tom&jerry@example.com'')),
           VString (escape ''tom&jerry@example.com''),
           VString (escape ''fast & small''),
           VString ''<h1>pkg</h1>'']
   \<and> prop_of shared_owner_doc 0 ''owner'' = prop_of shared_owner_doc 0 ''lastPublisher''
   \<and> escape (escape ''tom&jerry@example.com'') = ''tom&amp;amp;jerry@example.com''
   \<and> escape ''tom&jerry@example.com'' = ''tom&amp;jerry@example.com''
   \<and> escape (escape ''tom&jerry@example.com'') \<noteq> escape ''tom&jerry@example.com''"
proof -
  have w: "map_option
     (\<lambda>h. [prop_of h 1 ''email'', prop_of h 3 ''email'', prop_of h 0 ''description'',
           prop_of h 0 ''readme''])
     (formatPkg_return 5 0 shared_owner_doc)
   = Some [VString ''tom&amp;amp;jerry@example.com'', VString ''tom&amp;jerry@example.com'',
           VString ''fast &amp; small'', VString ''<h1>pkg</h1>'']"
    by (simp add: formatPkg_return_def shared_owner_doc_def heap_of_def eval_nat_numeral Let_def
        visit_def maybeEscape_def isLeaf_def update_def escape_def escape_char_def)
  have s: "prop_of shared_owner_doc 0 ''owner'' = prop_of shared_owner_doc 0 ''lastPublisher''"
    by (simp add: shared_owner_doc_def heap_of_def)
  show ?thesis
    using w s by (simp add: escape_examples)
qed

end
